theory Spec2Isabelle
  imports Complex_Main "HOL-Library.Multiset" "HOL-Library.Code_Target_Nat"
begin

section \<open>Job records (include/job.h)\<close>

text \<open>
  The enumerations of \<^verbatim>\<open>job.h\<close>, in the order of their declaration; \<open>rank\<close> is
  \<^verbatim>\<open>static_cast<int>(priority)\<close>.
\<close>

datatype JobPriority = LOW | MEDIUM | HIGH | CRITICAL

datatype JobStatus = PENDING | RUNNING | COMPLETED | FAILED | KILLED | SUSPENDED | WAITING_DEPS

datatype JobType = INTERACTIVE | BATCH | ARRAY_JOB

fun rank :: "JobPriority \<Rightarrow> int" where
  "rank LOW = 0"
| "rank MEDIUM = 1"
| "rank HIGH = 2"
| "rank CRITICAL = 3"

text \<open>
  Time points of \<^verbatim>\<open>std::chrono::system_clock\<close> are counts of clock ticks
  (nanoseconds) since the epoch; the default-constructed time point is 0.
  \<^verbatim>\<open>duration_cast\<close> truncates towards zero.
\<close>

type_synonym time_point = int

definition trunc_div :: "int \<Rightarrow> int \<Rightarrow> int" where
  "trunc_div a b = (if 0 \<le> a then a div b else - ((- a) div b))"

definition to_milliseconds :: "int \<Rightarrow> int" where
  "to_milliseconds d = trunc_div d 1000000"

definition to_minutes :: "int \<Rightarrow> int" where
  "to_minutes d = trunc_div d 60000000000"

record ResourceLimits =
  max_memory_mb :: nat
  max_runtime :: int
  max_cpu_cores :: int

text \<open>
  \<^verbatim>\<open>struct JobMetadata\<close>. The fields \<^verbatim>\<open>assigned_cores\<close>, \<^verbatim>\<open>dependents\<close>,
  \<^verbatim>\<open>chained_commands\<close> and \<^verbatim>\<open>current_command_index\<close> are never read or written by
  the scheduler and are left out. \<^verbatim>\<open>dependencies\<close> is an \<^verbatim>\<open>unordered_set<int>\<close>: a
  list without repetitions. \<^verbatim>\<open>thread_id\<close> is the index of the worker thread.
\<close>

record JobMetadata =
  job_id :: int
  job_name :: string
  command :: string
  priority :: JobPriority
  status :: JobStatus
  type :: JobType
  assigned_core_id :: int
  limits :: ResourceLimits
  memory_usage_mb :: nat
  thread_id :: "nat option"
  submit_time :: time_point
  start_time :: time_point
  end_time :: time_point
  actual_runtime :: int
  dependencies :: "int list"
  array_job_id :: int
  array_task_id :: int
  cpu_utilization :: real
  context_switches :: int
  process_id :: int
  exit_code :: int

definition default_limits :: ResourceLimits where
  "default_limits = \<lparr>max_memory_mb = 1024, max_runtime = 3600, max_cpu_cores = 1\<rparr>"

text \<open>The constructor \<^verbatim>\<open>JobMetadata(id, cmd, p)\<close> with the default member initialisers.\<close>

definition new_job :: "int \<Rightarrow> string \<Rightarrow> JobPriority \<Rightarrow> time_point \<Rightarrow> JobMetadata" where
  "new_job jid cmd p now =
     \<lparr>job_id = jid, job_name = [], command = cmd, priority = p, status = PENDING,
      type = INTERACTIVE, assigned_core_id = - 1, limits = default_limits,
      memory_usage_mb = 0, thread_id = None, submit_time = now, start_time = 0,
      end_time = 0, actual_runtime = 0, dependencies = [], array_job_id = - 1,
      array_task_id = - 1, cpu_utilization = 0, context_switches = 0, process_id = - 1,
      exit_code = 0\<rparr>"

section \<open>Scheduler state (include/scheduler.h)\<close>

datatype SchedulingPolicy = PRIORITY_FIRST | SHORTEST_JOB_FIRST | ROUND_ROBIN | FAIR_SHARE

record SystemStats =
  total_jobs_submitted :: nat
  total_jobs_completed :: nat
  total_jobs_failed :: nat
  total_jobs_killed :: nat
  average_turnaround_time :: real
  average_wait_time :: real
  system_throughput :: real
  current_memory_usage_mb :: nat
  stats_start_time :: time_point

text \<open>
  The data members of \<^verbatim>\<open>class JobScheduler\<close>. Every \<^verbatim>\<open>JobMetadata\<close> is created by a
  submission, which appends it to \<^verbatim>\<open>all_jobs_\<close> in the same critical section, and
  \<^verbatim>\<open>all_jobs_\<close> never shrinks: \<open>all_jobs\<close> is the store of the records, and a
  \<^verbatim>\<open>JobPtr\<close> is the position of its record there. The queue, the active list and the
  completed list hold such pointers, so a write through one alias is seen through all.
  \<open>job_queue\<close> is the underlying vector of the \<^verbatim>\<open>std::priority_queue\<close>.
\<close>

type_synonym JobPtr = nat

record JobScheduler =
  num_cores :: nat
  core_availability :: "bool list"
  core_last_used :: "time_point list"
  max_concurrent_jobs :: nat
  running :: bool
  cpu_affinity_enabled :: bool
  next_job_id :: int
  current_policy :: SchedulingPolicy
  all_jobs :: "JobMetadata list"
  job_queue :: "JobPtr list"
  active_jobs :: "JobPtr list"
  completed_jobs :: "JobPtr list"
  stats :: SystemStats

definition initial_stats :: "time_point \<Rightarrow> SystemStats" where
  "initial_stats now =
     \<lparr>total_jobs_submitted = 0, total_jobs_completed = 0, total_jobs_failed = 0,
      total_jobs_killed = 0, average_turnaround_time = 0, average_wait_time = 0,
      system_throughput = 0, current_memory_usage_mb = 0, stats_start_time = now\<rparr>"

text \<open>The constructor \<^verbatim>\<open>JobScheduler(num_cores)\<close>.\<close>

definition new_scheduler :: "nat \<Rightarrow> time_point \<Rightarrow> JobScheduler" where
  "new_scheduler n now =
     \<lparr>num_cores = n, core_availability = replicate n True, core_last_used = replicate n 0,
      max_concurrent_jobs = n * 2, running = False, cpu_affinity_enabled = False,
      next_job_id = 1, current_policy = PRIORITY_FIRST, all_jobs = [], job_queue = [],
      active_jobs = [], completed_jobs = [], stats = initial_stats now\<rparr>"

section \<open>The core table\<close>

text \<open>
  \<^verbatim>\<open>assign_core\<close>: the loop runs over the indices from \<open>i\<close> and returns at the first
  available slot; \<open>- 1\<close> when there is none.
\<close>

function assign_core_from :: "nat \<Rightarrow> time_point \<Rightarrow> JobScheduler \<Rightarrow> int \<times> JobScheduler" where
  "assign_core_from i now s =
     (if i < length (core_availability s) then
        (if core_availability s ! i then
           (int i, s\<lparr>core_availability := (core_availability s)[i := False],
                     core_last_used := (core_last_used s)[i := now]\<rparr>)
         else assign_core_from (Suc i) now s)
      else (- 1, s))"
  by pat_completeness auto
termination
  by (relation "measure (\<lambda>(i, now, s). length (core_availability s) - i)") auto

declare assign_core_from.simps [simp del]

definition assign_core :: "time_point \<Rightarrow> JobScheduler \<Rightarrow> int \<times> JobScheduler" where
  "assign_core now s = assign_core_from 0 now s"

text \<open>\<^verbatim>\<open>static_cast<size_t>(count)\<close> of an \<^verbatim>\<open>int\<close>, for a 64-bit \<^verbatim>\<open>size_t\<close>.\<close>

definition size_t_of_int :: "int \<Rightarrow> nat" where
  "size_t_of_int c = nat (c mod 2 ^ 64)"

text \<open>
  \<^verbatim>\<open>assign_multiple_cores\<close>: the loop stops at the end of the table or when
  \<^verbatim>\<open>count\<close> slots have been collected, and the function returns what it has collected.
\<close>

function assign_multiple_cores_from ::
  "nat \<Rightarrow> nat \<Rightarrow> time_point \<Rightarrow> JobScheduler \<Rightarrow> int list \<Rightarrow> int list \<times> JobScheduler" where
  "assign_multiple_cores_from cnt i now s assigned_cores =
     (if i < length (core_availability s) \<and> length assigned_cores < cnt then
        (if core_availability s ! i then
           assign_multiple_cores_from cnt (Suc i) now
             (s\<lparr>core_availability := (core_availability s)[i := False],
                core_last_used := (core_last_used s)[i := now]\<rparr>)
             (assigned_cores @ [int i])
         else assign_multiple_cores_from cnt (Suc i) now s assigned_cores)
      else (assigned_cores, s))"
  by pat_completeness auto
termination
  by (relation "measure (\<lambda>(cnt, i, now, s, acc). length (core_availability s) - i)") auto

declare assign_multiple_cores_from.simps [simp del]

definition assign_multiple_cores :: "int \<Rightarrow> time_point \<Rightarrow> JobScheduler \<Rightarrow> int list \<times> JobScheduler" where
  "assign_multiple_cores cnt now s = assign_multiple_cores_from (size_t_of_int cnt) 0 now s []"

definition release_core :: "int \<Rightarrow> JobScheduler \<Rightarrow> JobScheduler" where
  "release_core core_id s =
     (if 0 \<le> core_id \<and> core_id < int (length (core_availability s))
      then s\<lparr>core_availability := (core_availability s)[nat core_id := True]\<rparr>
      else s)"

fun release_cores :: "int list \<Rightarrow> JobScheduler \<Rightarrow> JobScheduler" where
  "release_cores [] s = s"
| "release_cores (c # cs) s = release_cores cs (release_core c s)"

text \<open>The free slots of the table from index \<open>i\<close>, lowest first.\<close>

definition free_from :: "nat \<Rightarrow> bool list \<Rightarrow> nat list" where
  "free_from i av = filter (\<lambda>k. av ! k) [i..<length av]"

definition free_cores :: "JobScheduler \<Rightarrow> nat list" where
  "free_cores s = free_from 0 (core_availability s)"

section \<open>Strings\<close>

text \<open>
  \<^verbatim>\<open>std::string::find\<close> of a substring, from the start: the position of the first
  occurrence, \<open>None\<close> for \<^verbatim>\<open>npos\<close>.
\<close>

fun starts_with :: "string \<Rightarrow> string \<Rightarrow> bool" where
  "starts_with s [] = True"
| "starts_with [] (y # ys) = False"
| "starts_with (x # xs) (y # ys) = (x = y \<and> starts_with xs ys)"

fun str_find_from :: "nat \<Rightarrow> string \<Rightarrow> string \<Rightarrow> nat option" where
  "str_find_from i [] sub = (if sub = [] then Some i else None)"
| "str_find_from i (c # cs) sub =
     (if starts_with (c # cs) sub then Some i else str_find_from (Suc i) cs sub)"

definition str_find :: "string \<Rightarrow> string \<Rightarrow> nat option" where
  "str_find s sub = str_find_from 0 s sub"

definition contains :: "string \<Rightarrow> string \<Rightarrow> bool" where
  "contains s sub = (str_find s sub \<noteq> None)"

text \<open>\<^verbatim>\<open>::tolower\<close> in the C locale.\<close>

definition tolower :: "char \<Rightarrow> char" where
  "tolower c = (let n = (of_char c :: nat) in if 65 \<le> n \<and> n \<le> 90 then char_of (n + 32) else c)"

definition newline :: char where
  "newline = char_of (10 :: nat)"

definition is_blank :: "char \<Rightarrow> bool" where
  "is_blank c = (c = CHR '' '' \<or> c = char_of (9 :: nat))"

definition is_space :: "char \<Rightarrow> bool" where
  "is_space c = (let n = (of_char c :: nat) in n = 32 \<or> (9 \<le> n \<and> n \<le> 13))"

definition is_digit :: "char \<Rightarrow> bool" where
  "is_digit c = (let n = (of_char c :: nat) in 48 \<le> n \<and> n \<le> 57)"

text \<open>
  \<^verbatim>\<open>s.erase(0, s.find_first_not_of(" \t"))\<close> and
  \<^verbatim>\<open>s.erase(s.find_last_not_of(" \t") + 1)\<close>; both empty a string of blanks.
\<close>

definition ltrim :: "string \<Rightarrow> string" where
  "ltrim s = dropWhile is_blank s"

definition rtrim :: "string \<Rightarrow> string" where
  "rtrim s = rev (dropWhile is_blank (rev s))"

text \<open>\<^verbatim>\<open>line.substr(line.find(":") + 1)\<close>; \<^verbatim>\<open>npos + 1\<close> is 0.\<close>

definition after_colon :: "string \<Rightarrow> string" where
  "after_colon line = (case str_find line '':'' of Some i \<Rightarrow> drop (i + 1) line | None \<Rightarrow> line)"

text \<open>
  The exceptions that occur: \<^verbatim>\<open>std::runtime_error\<close> with a message, thrown by
  \<^verbatim>\<open>parse_job_script\<close>, and those of \<^verbatim>\<open>std::stoi\<close> and \<^verbatim>\<open>std::stoul\<close>.
\<close>

datatype cxx_error = runtime_error string | invalid_argument | out_of_range

text \<open>
  \<^verbatim>\<open>std::stoi\<close> and \<^verbatim>\<open>std::stoul\<close> (base 10, 32-bit \<^verbatim>\<open>int\<close>, 64-bit
  \<^verbatim>\<open>unsigned long\<close>), as \<^verbatim>\<open>strtol\<close> and \<^verbatim>\<open>strtoul\<close> read a number: leading white space,
  an optional sign, then digits; what follows the digits is ignored. \<^verbatim>\<open>strtoul\<close> negates
  a value with a minus sign in the unsigned type.
\<close>

definition split_sign :: "string \<Rightarrow> bool \<times> string" where
  "split_sign s =
     (case dropWhile is_space s of
        [] \<Rightarrow> (False, [])
      | c # r \<Rightarrow> if c = CHR ''-'' then (True, r)
                 else if c = CHR ''+'' then (False, r)
                 else (False, c # r))"

definition digits_value :: "string \<Rightarrow> nat" where
  "digits_value ds = foldl (\<lambda>n c. 10 * n + (of_char c - 48)) 0 ds"

definition stoi :: "string \<Rightarrow> cxx_error + int" where
  "stoi s =
     (let (neg, r) = split_sign s; ds = takeWhile is_digit r
      in if ds = [] then Inl invalid_argument
         else (let v = (if neg then - int (digits_value ds) else int (digits_value ds))
               in if v < - (2 ^ 31) \<or> v > 2 ^ 31 - 1 then Inl out_of_range else Inr v))"

definition stoul :: "string \<Rightarrow> cxx_error + nat" where
  "stoul s =
     (let (neg, r) = split_sign s; ds = takeWhile is_digit r
      in if ds = [] then Inl invalid_argument
         else (let n = digits_value ds
               in if n > 2 ^ 64 - 1 then Inl out_of_range
                  else Inr (if neg then (2 ^ 64 - n) mod 2 ^ 64 else n)))"

section \<open>The ready queue\<close>

text \<open>
  The comparator the scheduler's queue is declared with,
  \<^verbatim>\<open>JobScheduler::JobCompare\<close> of \<^verbatim>\<open>scheduler.h\<close>; it reads the records behind the two
  pointers at the time of the comparison.
\<close>

definition JobScheduler_JobCompare :: "JobMetadata list \<Rightarrow> JobPtr \<Rightarrow> JobPtr \<Rightarrow> bool" where
  "JobScheduler_JobCompare js a b = (rank (priority (js ! a)) < rank (priority (js ! b)))"

text \<open>
  \<^verbatim>\<open>std::priority_queue\<close> is the standard library's adaptor over a vector:
  \<^verbatim>\<open>push\<close> is \<^verbatim>\<open>push_back\<close> then \<^verbatim>\<open>std::push_heap\<close>, \<^verbatim>\<open>pop\<close> is \<^verbatim>\<open>std::pop_heap\<close> then
  \<^verbatim>\<open>pop_back\<close>, \<^verbatim>\<open>top\<close> is \<^verbatim>\<open>front\<close>. The heap algorithms follow the GNU
  implementation the Makefile builds with (\<^verbatim>\<open>bits/stl_heap.h\<close>): \<^verbatim>\<open>__push_heap\<close> moves a
  hole up while the parent compares below the value; \<^verbatim>\<open>__adjust_heap\<close> moves the hole
  at the root down along the larger children to the bottom and then pushes the value up
  from there. In \<^verbatim>\<open>__adjust_heap\<close> the variables \<^verbatim>\<open>__holeIndex\<close> and \<^verbatim>\<open>__secondChild\<close>
  are equal at every loop test, so the model keeps one of them.
\<close>

function push_heap_loop :: "('a \<Rightarrow> 'a \<Rightarrow> bool) \<Rightarrow> 'a list \<Rightarrow> nat \<Rightarrow> nat \<Rightarrow> 'a \<Rightarrow> 'a list" where
  "push_heap_loop lt xs holeIndex topIndex v =
     (if holeIndex > topIndex \<and> lt (xs ! ((holeIndex - 1) div 2)) v
      then push_heap_loop lt (xs[holeIndex := xs ! ((holeIndex - 1) div 2)])
             ((holeIndex - 1) div 2) topIndex v
      else xs[holeIndex := v])"
  by pat_completeness auto
termination
  by (relation "measure (\<lambda>(lt, xs, holeIndex, topIndex, v). holeIndex)") auto

declare push_heap_loop.simps [simp del]

definition larger_child :: "('a \<Rightarrow> 'a \<Rightarrow> bool) \<Rightarrow> 'a list \<Rightarrow> nat \<Rightarrow> nat" where
  "larger_child lt xs holeIndex =
     (let secondChild = 2 * (holeIndex + 1)
      in if lt (xs ! secondChild) (xs ! (secondChild - 1)) then secondChild - 1 else secondChild)"

function adjust_heap_down :: "('a \<Rightarrow> 'a \<Rightarrow> bool) \<Rightarrow> 'a list \<Rightarrow> nat \<Rightarrow> nat \<Rightarrow> 'a list \<times> nat" where
  "adjust_heap_down lt xs holeIndex len =
     (if holeIndex < (len - 1) div 2
      then adjust_heap_down lt (xs[holeIndex := xs ! larger_child lt xs holeIndex])
             (larger_child lt xs holeIndex) len
      else (xs, holeIndex))"
  by pat_completeness auto
termination
  by (relation "measure (\<lambda>(lt, xs, holeIndex, len). len - holeIndex)")
     (auto simp: larger_child_def Let_def)

declare adjust_heap_down.simps [simp del]

definition adjust_heap :: "('a \<Rightarrow> 'a \<Rightarrow> bool) \<Rightarrow> 'a list \<Rightarrow> nat \<Rightarrow> 'a \<Rightarrow> 'a list" where
  "adjust_heap lt xs len v =
     (let (xs1, h1) = adjust_heap_down lt xs 0 len;
          (xs2, h2) = (if len mod 2 = 0 \<and> h1 = (len - 2) div 2
                       then (xs1[h1 := xs1 ! (2 * (h1 + 1) - 1)], 2 * (h1 + 1) - 1)
                       else (xs1, h1))
      in push_heap_loop lt xs2 h2 0 v)"

definition push_heap :: "('a \<Rightarrow> 'a \<Rightarrow> bool) \<Rightarrow> 'a list \<Rightarrow> 'a list" where
  "push_heap lt xs = (if xs = [] then [] else push_heap_loop lt xs (length xs - 1) 0 (last xs))"

definition pop_heap :: "('a \<Rightarrow> 'a \<Rightarrow> bool) \<Rightarrow> 'a list \<Rightarrow> 'a list" where
  "pop_heap lt xs =
     (if length xs > 1
      then adjust_heap lt (butlast xs) (length xs - 1) (last xs) @ [hd xs]
      else xs)"

definition pq_push :: "('a \<Rightarrow> 'a \<Rightarrow> bool) \<Rightarrow> 'a \<Rightarrow> 'a list \<Rightarrow> 'a list" where
  "pq_push lt x q = push_heap lt (q @ [x])"

definition pq_pop :: "('a \<Rightarrow> 'a \<Rightarrow> bool) \<Rightarrow> 'a list \<Rightarrow> 'a list" where
  "pq_pop lt q = butlast (pop_heap lt q)"

text \<open>\<^verbatim>\<open>top()\<close>; the callers test \<^verbatim>\<open>empty()\<close> first.\<close>

definition pq_top :: "'a list \<Rightarrow> 'a" where
  "pq_top q = hd q"

section \<open>Job functions (job.cpp)\<close>

text \<open>
  \<^verbatim>\<open>dependencies_satisfied\<close>: every dependency id must be found in \<^verbatim>\<open>all_jobs\<close>
  (\<^verbatim>\<open>find_if\<close> takes the first record with that id) with status \<open>COMPLETED\<close>.
\<close>

definition dependency_completed :: "JobMetadata list \<Rightarrow> int \<Rightarrow> bool" where
  "dependency_completed js dep_id =
     (case find (\<lambda>j. job_id j = dep_id) js of
        None \<Rightarrow> False
      | Some j \<Rightarrow> status j = COMPLETED)"

definition dependencies_satisfied :: "JobMetadata \<Rightarrow> JobMetadata list \<Rightarrow> bool" where
  "dependencies_satisfied job js = list_all (dependency_completed js) (dependencies job)"

text \<open>
  \<^verbatim>\<open>std::regex_search\<close> with \<^verbatim>\<open>sleep\s+(\d+)\<close>: the leftmost place where \<^verbatim>\<open>sleep\<close> is
  followed by white space and then by digits; the result is the run of digits.
\<close>

fun sleep_digits :: "string \<Rightarrow> string option" where
  "sleep_digits [] = None"
| "sleep_digits (c # cs) =
     (if starts_with (c # cs) ''sleep'' then
        (let r = drop 5 (c # cs); r' = dropWhile is_space r
         in if length r' < length r \<and> takeWhile is_digit r' \<noteq> []
            then Some (takeWhile is_digit r')
            else sleep_digits cs)
      else sleep_digits cs)"

text \<open>\<^verbatim>\<open>get_estimated_runtime\<close>, in seconds; \<^verbatim>\<open>std::stoi\<close> can throw.\<close>

definition get_estimated_runtime :: "JobMetadata \<Rightarrow> cxx_error + int" where
  "get_estimated_runtime job =
     (let cmd = map tolower (command job)
      in if contains cmd ''sleep'' then
           (case sleep_digits cmd of
              Some ds \<Rightarrow> stoi ds
            | None \<Rightarrow> Inr 10)
         else
           (let b0 = (5 :: int);
                b1 = (if contains cmd ''for'' \<or> contains cmd ''while'' then b0 * 3 else b0);
                b2 = (if contains cmd ''find'' \<or> contains cmd ''grep'' then b1 * 2 else b1);
                b3 = (if contains cmd ''make'' \<or> contains cmd ''compile'' then b2 * 5 else b2);
                b4 = (if contains cmd ''download'' \<or> contains cmd ''wget'' \<or> contains cmd ''curl''
                      then b3 * 4 else b3)
            in Inr (b4 + int (length (command job) div 20))))"

text \<open>
  \<^verbatim>\<open>calculate_priority_score\<close> at clock reading \<open>now\<close>; the \<^verbatim>\<open>double\<close> arithmetic is
  taken over the reals. A score here is the exact value of the formula, which the code
  rounds at each operation: two scores closer than the rounding error can compare
  otherwise in the code.
\<close>

definition calculate_priority_score :: "time_point \<Rightarrow> JobMetadata \<Rightarrow> cxx_error + real" where
  "calculate_priority_score now job =
     (case get_estimated_runtime job of
        Inl e \<Rightarrow> Inl e
      | Inr estimated_runtime \<Rightarrow>
          (let score0 = real_of_int (rank (priority job));
               runtime_factor = 1 / (1 + real_of_int estimated_runtime / 60);
               score1 = score0 + runtime_factor * (1 / 10);
               wait_minutes = real_of_int (to_minutes (now - submit_time job));
               score2 = score1 + wait_minutes * (1 / 100);
               score3 = (if status job = WAITING_DEPS then score2 - 1 else score2);
               score4 = (if type job = INTERACTIVE then score3 + 2 / 10 else score3);
               score5 = (if priority job = CRITICAL then score4 + 2 else score4)
           in Inr score5))"

text \<open>
  \<^verbatim>\<open>struct JobCompare\<close> of \<^verbatim>\<open>job.h\<close>, commented there as the "Job comparison for
  priority queue". Inside \<^verbatim>\<open>class JobScheduler\<close> the name \<^verbatim>\<open>JobCompare\<close> denotes the
  nested struct above, so the queue is not declared with this one.
\<close>

definition JobCompare :: "time_point \<Rightarrow> JobMetadata \<Rightarrow> JobMetadata \<Rightarrow> cxx_error + bool" where
  "JobCompare now a b =
     (case calculate_priority_score now a of
        Inl e \<Rightarrow> Inl e
      | Inr sa \<Rightarrow>
          (case calculate_priority_score now b of
             Inl e \<Rightarrow> Inl e
           | Inr sb \<Rightarrow> Inr (sa < sb)))"

section \<open>Scheduler operations (scheduler.cpp)\<close>

definition upd_job :: "JobPtr \<Rightarrow> (JobMetadata \<Rightarrow> JobMetadata) \<Rightarrow> JobScheduler \<Rightarrow> JobScheduler" where
  "upd_job p f s = s\<lparr>all_jobs := (all_jobs s)[p := f (all_jobs s ! p)]\<rparr>"

definition queue_push :: "JobPtr \<Rightarrow> JobScheduler \<Rightarrow> JobScheduler" where
  "queue_push p s = s\<lparr>job_queue := pq_push (JobScheduler_JobCompare (all_jobs s)) p (job_queue s)\<rparr>"

definition count_submitted :: "JobScheduler \<Rightarrow> JobScheduler" where
  "count_submitted s = s\<lparr>stats := (stats s)\<lparr>total_jobs_submitted := total_jobs_submitted (stats s) + 1\<rparr>\<rparr>"

text \<open>
  \<^verbatim>\<open>submit_job\<close>. The record exists before it is pushed, so the store is extended first;
  the returned pointer is the new record's.
\<close>

definition submit_job :: "string \<Rightarrow> JobPriority \<Rightarrow> time_point \<Rightarrow> JobScheduler \<Rightarrow> JobPtr \<times> JobScheduler" where
  "submit_job cmd p now s =
     (let ptr = length (all_jobs s);
          job = new_job (next_job_id s) cmd p now;
          s1 = s\<lparr>next_job_id := next_job_id s + 1, all_jobs := all_jobs s @ [job]\<rparr>
      in (ptr, count_submitted (queue_push ptr s1)))"

definition set_insert :: "int list \<Rightarrow> int \<Rightarrow> int list" where
  "set_insert ds d = (if d \<in> set ds then ds else ds @ [d])"

definition submit_job_with_deps ::
  "string \<Rightarrow> int list \<Rightarrow> JobPriority \<Rightarrow> time_point \<Rightarrow> JobScheduler \<Rightarrow> JobPtr \<times> JobScheduler" where
  "submit_job_with_deps cmd deps p now s =
     (let ptr = length (all_jobs s);
          job = (new_job (next_job_id s) cmd p now)\<lparr>dependencies := foldl set_insert [] deps\<rparr>;
          ready = dependencies_satisfied job (all_jobs s);
          job' = (if ready then job else job\<lparr>status := WAITING_DEPS\<rparr>);
          s1 = s\<lparr>next_job_id := next_job_id s + 1, all_jobs := all_jobs s @ [job']\<rparr>
      in (ptr, count_submitted (if ready then queue_push ptr s1 else s1)))"

text \<open>\<^verbatim>\<open>find_if\<close> over \<^verbatim>\<open>active_jobs_\<close> by job id, as the control operations do.\<close>

definition find_active :: "int \<Rightarrow> JobScheduler \<Rightarrow> JobPtr option" where
  "find_active jid s = find (\<lambda>p. job_id (all_jobs s ! p) = jid) (active_jobs s)"

definition find_job :: "int \<Rightarrow> JobScheduler \<Rightarrow> JobPtr option" where
  "find_job jid s = find (\<lambda>p. job_id (all_jobs s ! p) = jid) [0..<length (all_jobs s)]"

definition kill_job :: "int \<Rightarrow> JobScheduler \<Rightarrow> bool \<times> JobScheduler" where
  "kill_job jid s =
     (case find_active jid s of
        Some p \<Rightarrow>
          (True, (upd_job p (\<lambda>j. j\<lparr>status := KILLED\<rparr>) s)
                   \<lparr>stats := (stats s)\<lparr>total_jobs_killed := total_jobs_killed (stats s) + 1\<rparr>\<rparr>)
      | None \<Rightarrow> (False, s))"

definition suspend_job :: "int \<Rightarrow> JobScheduler \<Rightarrow> bool \<times> JobScheduler" where
  "suspend_job jid s =
     (case find_active jid s of
        Some p \<Rightarrow>
          (if status (all_jobs s ! p) = RUNNING
           then (True, upd_job p (\<lambda>j. j\<lparr>status := SUSPENDED\<rparr>) s)
           else (False, s))
      | None \<Rightarrow> (False, s))"

definition resume_job :: "int \<Rightarrow> JobScheduler \<Rightarrow> bool \<times> JobScheduler" where
  "resume_job jid s =
     (case find_active jid s of
        Some p \<Rightarrow>
          (if status (all_jobs s ! p) = SUSPENDED
           then (True, upd_job p (\<lambda>j. j\<lparr>status := RUNNING\<rparr>) s)
           else (False, s))
      | None \<Rightarrow> (False, s))"

definition change_job_priority :: "int \<Rightarrow> JobPriority \<Rightarrow> JobScheduler \<Rightarrow> bool \<times> JobScheduler" where
  "change_job_priority jid new_priority s =
     (case find_job jid s of
        Some p \<Rightarrow>
          (if status (all_jobs s ! p) = PENDING
           then (True, upd_job p (\<lambda>j. j\<lparr>priority := new_priority\<rparr>) s)
           else (False, s))
      | None \<Rightarrow> (False, s))"

text \<open>
  The control operations hold the lock, but \<^verbatim>\<open>execute_job\<close> writes the record of its job
  without it. So each of the four operations is also given in two halves, between which a
  worker can write: the search and the test of the status, which yield the pointer when
  the operation goes on, and the write.
\<close>

definition kill_job_find :: "int \<Rightarrow> JobScheduler \<Rightarrow> JobPtr option" where
  "kill_job_find jid s = find_active jid s"

definition kill_job_write :: "JobPtr \<Rightarrow> JobScheduler \<Rightarrow> JobScheduler" where
  "kill_job_write p s =
     (upd_job p (\<lambda>j. j\<lparr>status := KILLED\<rparr>) s)
       \<lparr>stats := (stats s)\<lparr>total_jobs_killed := total_jobs_killed (stats s) + 1\<rparr>\<rparr>"

definition suspend_job_test :: "int \<Rightarrow> JobScheduler \<Rightarrow> JobPtr option" where
  "suspend_job_test jid s =
     (case find_active jid s of
        Some p \<Rightarrow> if status (all_jobs s ! p) = RUNNING then Some p else None
      | None \<Rightarrow> None)"

definition suspend_job_write :: "JobPtr \<Rightarrow> JobScheduler \<Rightarrow> JobScheduler" where
  "suspend_job_write p s = upd_job p (\<lambda>j. j\<lparr>status := SUSPENDED\<rparr>) s"

definition resume_job_test :: "int \<Rightarrow> JobScheduler \<Rightarrow> JobPtr option" where
  "resume_job_test jid s =
     (case find_active jid s of
        Some p \<Rightarrow> if status (all_jobs s ! p) = SUSPENDED then Some p else None
      | None \<Rightarrow> None)"

definition resume_job_write :: "JobPtr \<Rightarrow> JobScheduler \<Rightarrow> JobScheduler" where
  "resume_job_write p s = upd_job p (\<lambda>j. j\<lparr>status := RUNNING\<rparr>) s"

definition change_job_priority_test :: "int \<Rightarrow> JobScheduler \<Rightarrow> JobPtr option" where
  "change_job_priority_test jid s =
     (case find_job jid s of
        Some p \<Rightarrow> if status (all_jobs s ! p) = PENDING then Some p else None
      | None \<Rightarrow> None)"

definition change_job_priority_write :: "JobPtr \<Rightarrow> JobPriority \<Rightarrow> JobScheduler \<Rightarrow> JobScheduler" where
  "change_job_priority_write p new_priority s = upd_job p (\<lambda>j. j\<lparr>priority := new_priority\<rparr>) s"

definition get_system_stats :: "JobScheduler \<Rightarrow> SystemStats" where
  "get_system_stats s = stats s"

definition get_completed_jobs :: "JobScheduler \<Rightarrow> JobMetadata list" where
  "get_completed_jobs s = map (\<lambda>p. all_jobs s ! p) (completed_jobs s)"

subsection \<open>The worker's critical sections and the lifecycle driver\<close>

text \<open>
  The first critical section of \<^verbatim>\<open>worker_function\<close>, once the wait is over: the thread
  leaves when the scheduler is stopped; otherwise it takes the top of the queue if the
  queue is not empty and the active list is below the limit.
\<close>

definition worker_take :: "JobScheduler \<Rightarrow> JobPtr option \<times> JobScheduler" where
  "worker_take s =
     (if \<not> running s then (None, s)
      else if job_queue s \<noteq> [] \<and> length (active_jobs s) < max_concurrent_jobs s then
        (let job = pq_top (job_queue s)
         in (Some job,
             s\<lparr>job_queue := pq_pop (JobScheduler_JobCompare (all_jobs s)) (job_queue s),
               active_jobs := active_jobs s @ [job]\<rparr>))
      else (None, s))"

text \<open>
  \<^verbatim>\<open>execute_job\<close> runs outside the scheduler's lock and takes it only inside
  \<^verbatim>\<open>assign_core\<close> and \<^verbatim>\<open>release_core\<close>. Its statements are grouped at these points:
  the three writes before \<^verbatim>\<open>assign_core\<close>, the assignment of the core, the simulated
  metrics up to \<^verbatim>\<open>fork\<close>, the writes that follow the return of \<^verbatim>\<open>waitpid\<close> (or the
  failure of \<^verbatim>\<open>fork\<close>), and \<^verbatim>\<open>release_core\<close>. A group reads or writes once at most what
  another thread writes or tests while the job is executed: the status, which the control
  operations test and write, and the memory limit, which \<^verbatim>\<open>parse_job_script\<close> writes. The
  store of the result of \<^verbatim>\<open>assign_core\<close> is taken with the call: no other thread writes
  \<^verbatim>\<open>assigned_core_id\<close>, and none tests it. Writing the audit log does not change the
  scheduler and is not modelled.
\<close>

definition execute_job_mark :: "nat \<Rightarrow> time_point \<Rightarrow> JobPtr \<Rightarrow> JobScheduler \<Rightarrow> JobScheduler" where
  "execute_job_mark w now p s =
     upd_job p (\<lambda>j. j\<lparr>status := RUNNING, thread_id := Some w, start_time := now\<rparr>) s"

definition execute_job_assign :: "time_point \<Rightarrow> JobPtr \<Rightarrow> JobScheduler \<Rightarrow> JobScheduler" where
  "execute_job_assign now p s =
     (let (c, s1) = assign_core now s in upd_job p (\<lambda>j. j\<lparr>assigned_core_id := c\<rparr>) s1)"

text \<open>\<^verbatim>\<open>simulate_cpu_usage\<close>; \<open>r1\<close> and \<open>r2\<close> are the two results of \<^verbatim>\<open>rand()\<close>.\<close>

definition simulate_cpu_usage :: "nat \<Rightarrow> nat \<Rightarrow> JobMetadata \<Rightarrow> JobMetadata" where
  "simulate_cpu_usage r1 r2 job =
     (let cmd = map tolower (command job);
          cpu = (if contains cmd ''sleep'' then 5 + real (r1 mod 15)
                 else if contains cmd ''find'' \<or> contains cmd ''grep'' then 30 + real (r1 mod 40)
                 else if contains cmd ''make'' \<or> contains cmd ''compile'' then 70 + real (r1 mod 30)
                 else 25 + real (r1 mod 50))
      in job\<lparr>cpu_utilization := cpu, context_switches := 100 + int (r2 mod 500)\<rparr>)"

definition simulate_memory_usage :: "JobMetadata \<Rightarrow> JobMetadata" where
  "simulate_memory_usage job =
     (let base_memory = 10 + length (command job) div 10;
          base_memory' = (if contains (command job) ''make'' then base_memory * 5 else base_memory)
      in job\<lparr>memory_usage_mb := min base_memory' (max_memory_mb (limits job))\<rparr>)"

text \<open>
  From the simulated metrics to \<^verbatim>\<open>fork\<close>. In the parent \<^verbatim>\<open>fork\<close> returns the child's
  pid, or a negative value on failure; the failure branch marks the job, and goes on to
  \<^verbatim>\<open>release_core\<close>.
\<close>

definition execute_job_fork :: "nat \<Rightarrow> nat \<Rightarrow> int \<Rightarrow> JobPtr \<Rightarrow> JobScheduler \<Rightarrow> JobScheduler" where
  "execute_job_fork r1 r2 pid p s =
     (let s1 = upd_job p (\<lambda>j. simulate_memory_usage (simulate_cpu_usage r1 r2 j)) s
      in if pid > 0 then upd_job p (\<lambda>j. j\<lparr>process_id := pid\<rparr>) s1
         else upd_job p (\<lambda>j. j\<lparr>status := FAILED, exit_code := - 1\<rparr>) s1)"

text \<open>
  What \<^verbatim>\<open>waitpid\<close> stores: the child exited with a code (\<^verbatim>\<open>WIFEXITED\<close>, \<^verbatim>\<open>WEXITSTATUS\<close>)
  or ended otherwise. \<open>execute_job_result\<close> is the writes after \<^verbatim>\<open>waitpid\<close>,
  \<open>execute_job_release\<close> the call of \<^verbatim>\<open>release_core\<close> that ends both branches, and
  \<open>execute_job_reaped\<close> the two one after the other.
\<close>

datatype wait_status = Exited int | Abnormal

definition execute_job_result :: "wait_status \<Rightarrow> time_point \<Rightarrow> JobPtr \<Rightarrow> JobScheduler \<Rightarrow> JobScheduler" where
  "execute_job_result ws now p s =
     (let s1 = upd_job p (\<lambda>j. j\<lparr>end_time := now,
                                 actual_runtime := to_milliseconds (now - start_time j)\<rparr>) s
      in case ws of
           Exited code \<Rightarrow>
             upd_job p (\<lambda>j. j\<lparr>exit_code := code,
                               status := (if code = 0 then COMPLETED else FAILED)\<rparr>) s1
         | Abnormal \<Rightarrow> upd_job p (\<lambda>j. j\<lparr>status := FAILED, exit_code := - 1\<rparr>) s1)"

definition execute_job_release :: "JobPtr \<Rightarrow> JobScheduler \<Rightarrow> JobScheduler" where
  "execute_job_release p s = release_core (assigned_core_id (all_jobs s ! p)) s"

definition execute_job_reaped :: "wait_status \<Rightarrow> time_point \<Rightarrow> JobPtr \<Rightarrow> JobScheduler \<Rightarrow> JobScheduler" where
  "execute_job_reaped ws now p s = execute_job_release p (execute_job_result ws now p s)"

text \<open>
  \<^verbatim>\<open>update_job_dependencies\<close>: one pass over \<^verbatim>\<open>all_jobs_\<close>; the test reads the store as
  the pass has left it so far.
\<close>

definition release_dependent :: "JobPtr \<Rightarrow> JobScheduler \<Rightarrow> JobPtr \<Rightarrow> JobScheduler" where
  "release_dependent completed_job s i =
     (let job = all_jobs s ! i
      in if status job = WAITING_DEPS then
           (if job_id (all_jobs s ! completed_job) \<in> set (dependencies job)
               \<and> dependencies_satisfied job (all_jobs s)
            then queue_push i (upd_job i (\<lambda>j. j\<lparr>status := PENDING\<rparr>) s)
            else s)
         else s)"

definition update_job_dependencies :: "JobPtr \<Rightarrow> JobScheduler \<Rightarrow> JobScheduler" where
  "update_job_dependencies completed_job s =
     foldl (release_dependent completed_job) s [0..<length (all_jobs s)]"

text \<open>\<^verbatim>\<open>check_and_schedule_dependencies\<close>; no function of the repository calls it.\<close>

definition schedule_if_ready :: "JobScheduler \<Rightarrow> JobPtr \<Rightarrow> JobScheduler" where
  "schedule_if_ready s i =
     (let job = all_jobs s ! i
      in if status job = WAITING_DEPS \<and> dependencies_satisfied job (all_jobs s)
         then queue_push i (upd_job i (\<lambda>j. j\<lparr>status := PENDING\<rparr>) s)
         else s)"

definition check_and_schedule_dependencies :: "JobScheduler \<Rightarrow> JobScheduler" where
  "check_and_schedule_dependencies s = foldl schedule_if_ready s [0..<length (all_jobs s)]"

text \<open>
  The second critical section of \<^verbatim>\<open>worker_function\<close>, after \<^verbatim>\<open>execute_job\<close> has
  returned. \<^verbatim>\<open>std::find\<close> and \<^verbatim>\<open>erase\<close> remove the first occurrence of the pointer.
\<close>

definition worker_done :: "JobPtr \<Rightarrow> JobScheduler \<Rightarrow> JobScheduler" where
  "worker_done job s =
     (if job \<in> set (active_jobs s) then
        (let s1 = s\<lparr>active_jobs := remove1 job (active_jobs s)\<rparr>;
             st = status (all_jobs s1 ! job)
         in if st = COMPLETED \<or> st = FAILED \<or> st = KILLED then
              (let s2 = s1\<lparr>completed_jobs := completed_jobs s1 @ [job]\<rparr>;
                   s3 = (if st = COMPLETED then
                           s2\<lparr>stats := (stats s2)\<lparr>total_jobs_completed := total_jobs_completed (stats s2) + 1\<rparr>\<rparr>
                         else if st = FAILED then
                           s2\<lparr>stats := (stats s2)\<lparr>total_jobs_failed := total_jobs_failed (stats s2) + 1\<rparr>\<rparr>
                         else s2)
               in update_job_dependencies job s3)
            else s1)
      else s)"

subsection \<open>Statistics and clean-up\<close>

text \<open>
  \<^verbatim>\<open>update_system_stats\<close> and \<^verbatim>\<open>cleanup_completed_jobs\<close> are private member functions;
  no function of the repository calls either. The \<^verbatim>\<open>double\<close> sums and quotients are
  taken over the reals.
\<close>

definition turnaround_ms :: "JobMetadata \<Rightarrow> int" where
  "turnaround_ms job = to_milliseconds (end_time job - submit_time job)"

definition wait_ms :: "JobMetadata \<Rightarrow> int" where
  "wait_ms job = to_milliseconds (start_time job - submit_time job)"

definition update_system_stats :: "time_point \<Rightarrow> JobScheduler \<Rightarrow> JobScheduler" where
  "update_system_stats now s =
     (if completed_jobs s = [] then s
      else
        (let done = get_completed_jobs s;
             total_turnaround = (\<Sum>j\<leftarrow>done. real_of_int (turnaround_ms j));
             total_wait = (\<Sum>j\<leftarrow>done. real_of_int (wait_ms j));
             minutes = to_minutes (now - stats_start_time (stats s));
             st1 = (stats s)\<lparr>average_turnaround_time := total_turnaround / real (length done),
                              average_wait_time := total_wait / real (length done)\<rparr>;
             st2 = (if minutes > 0
                    then st1\<lparr>system_throughput := real (total_jobs_completed st1) / real_of_int minutes\<rparr>
                    else st1);
             st3 = st2\<lparr>current_memory_usage_mb :=
                          (\<Sum>p\<leftarrow>active_jobs s. memory_usage_mb (all_jobs s ! p))\<rparr>
         in s\<lparr>stats := st3\<rparr>))"

definition max_completed :: nat where
  "max_completed = 1000"

definition cleanup_completed_jobs :: "JobScheduler \<Rightarrow> JobScheduler" where
  "cleanup_completed_jobs s =
     (if length (completed_jobs s) > max_completed
      then s\<lparr>completed_jobs := drop (length (completed_jobs s) - max_completed) (completed_jobs s)\<rparr>
      else s)"

subsection \<open>Job scripts\<close>

text \<open>
  \<^verbatim>\<open>std::getline\<close> with delimiter \<open>d\<close>, called until it fails: the delimiter ends a
  line and is dropped; the characters after the last delimiter form a line if there are
  any.
\<close>

fun getlines_from :: "char \<Rightarrow> string \<Rightarrow> string \<Rightarrow> string list" where
  "getlines_from d cur [] = (if cur = [] then [] else [cur])"
| "getlines_from d cur (c # cs) =
     (if c = d then cur # getlines_from d [] cs else getlines_from d (cur @ [c]) cs)"

definition getlines :: "char \<Rightarrow> string \<Rightarrow> string list" where
  "getlines d text = getlines_from d [] text"

text \<open>The local variables of \<^verbatim>\<open>parse_job_script\<close>, with their initial values.\<close>

record script_vars =
  v_job_name :: string
  v_priority :: JobPriority
  v_command :: string
  v_memory_limit :: nat
  v_runtime_limit :: int
  v_cores :: int
  v_dependencies :: "int list"

definition initial_vars :: script_vars where
  "initial_vars =
     \<lparr>v_job_name = [], v_priority = MEDIUM, v_command = [], v_memory_limit = 1024,
      v_runtime_limit = 3600, v_cores = 1, v_dependencies = []\<rparr>"

text \<open>The inner loop over the comma-separated dependency ids.\<close>

fun parse_deps :: "string list \<Rightarrow> int list \<Rightarrow> cxx_error + int list" where
  "parse_deps [] acc = Inr acc"
| "parse_deps (dep # rest) acc =
     (case stoi (rtrim (ltrim dep)) of
        Inl e \<Rightarrow> Inl e
      | Inr d \<Rightarrow> parse_deps rest (acc @ [d]))"

text \<open>The chain of tests on one header line.\<close>

definition parse_header :: "string \<Rightarrow> script_vars \<Rightarrow> cxx_error + script_vars" where
  "parse_header line v =
     (if contains line ''JOB_NAME:'' then
        Inr (v\<lparr>v_job_name := rtrim (ltrim (after_colon line))\<rparr>)
      else if contains line ''PRIORITY:'' then
        (let pri = rtrim (ltrim (after_colon line))
         in Inr (if pri = ''HIGH'' then v\<lparr>v_priority := HIGH\<rparr>
                 else if pri = ''LOW'' then v\<lparr>v_priority := LOW\<rparr>
                 else if pri = ''CRITICAL'' then v\<lparr>v_priority := CRITICAL\<rparr>
                 else v))
      else if contains line ''MEMORY_LIMIT:'' then
        (case stoul (ltrim (after_colon line)) of
           Inl e \<Rightarrow> Inl e
         | Inr m \<Rightarrow> Inr (v\<lparr>v_memory_limit := m\<rparr>))
      else if contains line ''RUNTIME_LIMIT:'' then
        (case stoi (ltrim (after_colon line)) of
           Inl e \<Rightarrow> Inl e
         | Inr t \<Rightarrow> Inr (v\<lparr>v_runtime_limit := t\<rparr>))
      else if contains line ''CORES:'' then
        (case stoi (ltrim (after_colon line)) of
           Inl e \<Rightarrow> Inl e
         | Inr c \<Rightarrow> Inr (v\<lparr>v_cores := c\<rparr>))
      else if contains line ''DEPENDENCIES:'' then
        (case parse_deps (getlines (CHR '','') (ltrim (after_colon line))) (v_dependencies v) of
           Inl e \<Rightarrow> Inl e
         | Inr ds \<Rightarrow> Inr (v\<lparr>v_dependencies := ds\<rparr>))
      else Inr v)"

text \<open>
  The loop over the lines of the file: a line that is empty or does not begin with
  \<open>#\<close> becomes the command and ends the loop.
\<close>

fun parse_lines :: "string list \<Rightarrow> script_vars \<Rightarrow> cxx_error + script_vars" where
  "parse_lines [] v = Inr v"
| "parse_lines (line # rest) v =
     (if line = [] \<or> hd line \<noteq> CHR ''#'' then Inr (v\<lparr>v_command := line\<rparr>)
      else (case parse_header line v of
              Inl e \<Rightarrow> Inl e
            | Inr v' \<Rightarrow> parse_lines rest v'))"

text \<open>
  \<^verbatim>\<open>parse_job_script\<close> up to the return of the submission; \<open>file\<close> is the content of
  the file at \<open>script_path\<close>, \<open>None\<close> when it cannot be opened.
\<close>

definition parse_job_script_submit ::
  "string \<Rightarrow> string option \<Rightarrow> time_point \<Rightarrow> JobScheduler
     \<Rightarrow> cxx_error + (JobPtr \<times> script_vars \<times> JobScheduler)" where
  "parse_job_script_submit script_path file now s =
     (case file of
        None \<Rightarrow> Inl (runtime_error (''Failed to open job script: '' @ script_path))
      | Some text \<Rightarrow>
          (case parse_lines (getlines newline text) initial_vars of
             Inl e \<Rightarrow> Inl e
           | Inr v \<Rightarrow>
               if v_command v = [] then
                 Inl (runtime_error (''No command found in job script: '' @ script_path))
               else
                 (let (job, s') =
                        (if v_dependencies v \<noteq> []
                         then submit_job_with_deps (v_command v) (v_dependencies v) (v_priority v) now s
                         else submit_job (v_command v) (v_priority v) now s)
                  in Inr (job, v, s'))))"

text \<open>
  The writes to the record that follow the submission in \<^verbatim>\<open>parse_job_script\<close>; they
  are made after the submission has released the lock.
\<close>

definition parse_job_script_fields :: "JobPtr \<Rightarrow> script_vars \<Rightarrow> JobScheduler \<Rightarrow> JobScheduler" where
  "parse_job_script_fields job v s =
     upd_job job
       (\<lambda>j. (if v_job_name v \<noteq> [] then j\<lparr>job_name := v_job_name v\<rparr> else j)
               \<lparr>limits := \<lparr>max_memory_mb = v_memory_limit v, max_runtime = v_runtime_limit v,
                           max_cpu_cores = v_cores v\<rparr>,
                type := BATCH\<rparr>) s"

text \<open>\<^verbatim>\<open>submit_job_script\<close> run without interruption.\<close>

definition submit_job_script ::
  "string \<Rightarrow> string option \<Rightarrow> time_point \<Rightarrow> JobScheduler \<Rightarrow> cxx_error + (JobPtr \<times> JobScheduler)" where
  "submit_job_script script_path file now s =
     (case parse_job_script_submit script_path file now s of
        Inl e \<Rightarrow> Inl e
      | Inr (job, v, s') \<Rightarrow> Inr (job, parse_job_script_fields job v s'))"

subsection \<open>Job arrays\<close>

function string_of_nat :: "nat \<Rightarrow> string" where
  "string_of_nat n =
     (if n < 10 then [char_of (48 + n)]
      else string_of_nat (n div 10) @ [char_of (48 + n mod 10)])"
  by pat_completeness auto
termination
  by (relation "measure id") auto

declare string_of_nat.simps [simp del]

definition to_string :: "int \<Rightarrow> string" where
  "to_string i = (if i < 0 then CHR ''-'' # string_of_nat (nat (- i)) else string_of_nat (nat i))"

text \<open>One round of the loop of \<^verbatim>\<open>submit_job_array\<close>: the command of task \<open>i\<close>.\<close>

definition array_command :: "string \<Rightarrow> int \<Rightarrow> string" where
  "array_command command_template i =
     (case str_find command_template ''$ARRAY_ID'' of
        Some pos \<Rightarrow> take pos command_template @ to_string i @ drop (pos + 9) command_template
      | None \<Rightarrow> command_template)"

definition array_fields :: "int \<Rightarrow> int \<Rightarrow> JobPtr \<Rightarrow> JobScheduler \<Rightarrow> JobScheduler" where
  "array_fields array_id i job s =
     upd_job job (\<lambda>j. j\<lparr>array_job_id := array_id, array_task_id := i, type := ARRAY_JOB\<rparr>) s"

section \<open>The running system\<close>

text \<open>
  The shell thread calls the control operations one after the other; each of
  \<^verbatim>\<open>submit_job\<close>, \<^verbatim>\<open>submit_job_with_deps\<close>, \<^verbatim>\<open>kill_job\<close>, \<^verbatim>\<open>suspend_job\<close>,
  \<^verbatim>\<open>resume_job\<close> and \<^verbatim>\<open>change_job_priority\<close> holds the scheduler's lock from its first
  statement to its return. The worker threads (\<^verbatim>\<open>start()\<close> creates \<^verbatim>\<open>num_cores_\<close> of
  them) run \<^verbatim>\<open>worker_function\<close>. The one mutex of the scheduler guards the two critical
  sections of \<^verbatim>\<open>worker_function\<close>, \<^verbatim>\<open>assign_core\<close> and \<^verbatim>\<open>release_core\<close>; the other
  statements of \<^verbatim>\<open>execute_job\<close> run without it. Steps of different threads interleave,
  and a step that needs the lock cannot happen while another thread holds it.

  A worker is at the wait of \<^verbatim>\<open>worker_function\<close>, or holds a job at one of the points
  inside \<^verbatim>\<open>execute_job\<close> (\<open>Ending\<close>: the last status is written and the core is not yet
  released), or has left the loop.
\<close>

datatype worker_pc =
    AtWait
  | Holding JobPtr
  | Started JobPtr
  | HasCore JobPtr
  | InWaitpid JobPtr
  | Ending JobPtr
  | Returned JobPtr
  | ThreadExit

text \<open>
  The shell thread is between two operations, or inside \<^verbatim>\<open>parse_job_script\<close> after the
  submission, or inside the loop of \<^verbatim>\<open>submit_job_array\<close> (before or after the submission
  of task \<open>i\<close>), or inside a control operation between its test and its write, where it
  holds the lock, or inside \<^verbatim>\<open>stop()\<close>.
\<close>

datatype main_pc =
    MainIdle
  | ScriptTail JobPtr script_vars
  | ArrayLoop string int JobPriority int int
  | ArrayTail string int JobPriority int int JobPtr
  | Killing JobPtr
  | Suspending JobPtr
  | Resuming JobPtr
  | Prioritising JobPtr JobPriority
  | Stopping
  | Stopped

record system =
  sched :: JobScheduler
  workers :: "worker_pc list"
  shell :: main_pc

datatype event =
    Submit string JobPriority time_point
  | SubmitWithDeps string "int list" JobPriority time_point
  | SubmitScript string "string option" time_point
  | ScriptFields
  | SubmitArray string int JobPriority
  | ArrayNext time_point
  | ArrayFields
  | Kill int
  | Suspend int
  | Resume int
  | ChangePriority int JobPriority
  | KillFind int
  | SuspendTest int
  | ResumeTest int
  | PriorityTest int JobPriority
  | ControlWrite
  | SetPolicy SchedulingPolicy
  | SetMaxJobs nat
  | EnableAffinity bool
  | Take nat
  | Mark nat time_point
  | AssignCore nat time_point
  | Fork nat nat nat int
  | Reaped nat wait_status time_point
  | Result nat wait_status time_point
  | Release nat
  | Finish nat
  | StopBegin
  | Leave nat
  | StopEnd

definition worker_at :: "nat \<Rightarrow> system \<Rightarrow> worker_pc option" where
  "worker_at w sys = (if w < length (workers sys) then Some (workers sys ! w) else None)"

definition move :: "nat \<Rightarrow> worker_pc \<Rightarrow> JobScheduler \<Rightarrow> system \<Rightarrow> system" where
  "move w pc s sys = sys\<lparr>sched := s, workers := (workers sys)[w := pc]\<rparr>"

definition idle_do :: "(JobScheduler \<Rightarrow> JobScheduler) \<Rightarrow> system \<Rightarrow> system option" where
  "idle_do f sys = (if shell sys = MainIdle then Some (sys\<lparr>sched := f (sched sys)\<rparr>) else None)"

text \<open>The first half of a control operation: the shell thread goes on to the write or returns.\<close>

definition idle_test :: "JobPtr option \<Rightarrow> (JobPtr \<Rightarrow> main_pc) \<Rightarrow> system \<Rightarrow> system option" where
  "idle_test found pc sys =
     (if shell sys = MainIdle
      then (case found of Some p \<Rightarrow> Some (sys\<lparr>shell := pc p\<rparr>) | None \<Rightarrow> Some sys)
      else None)"

text \<open>The shell thread holds the lock between the two halves of a control operation.\<close>

fun holds_lock :: "main_pc \<Rightarrow> bool" where
  "holds_lock (Killing p) = True"
| "holds_lock (Suspending p) = True"
| "holds_lock (Resuming p) = True"
| "holds_lock (Prioritising p new_priority) = True"
| "holds_lock pc = False"

definition locked :: "system \<Rightarrow> bool" where
  "locked sys = holds_lock (shell sys)"

text \<open>
  \<^verbatim>\<open>release_core\<close> takes the lock only when the core id is in the range of the table; then
  it waits while the shell thread holds the lock.
\<close>

definition release_waits :: "JobPtr \<Rightarrow> system \<Rightarrow> bool" where
  "release_waits job sys =
     (let core_id = assigned_core_id (all_jobs (sched sys) ! job)
      in locked sys \<and> 0 \<le> core_id \<and> core_id < int (length (core_availability (sched sys))))"

text \<open>
  \<open>exec e sys\<close> is the system after the step \<open>e\<close>, \<open>None\<close> when the thread is not at
  the point where \<open>e\<close> can happen, or needs the lock while the shell thread holds it. A
  worker passes the wait when the scheduler runs and the queue is not empty, or when the
  scheduler has been stopped (then it leaves). \<^verbatim>\<open>fork\<close> returns 0 only in the child.

  \<open>KillFind\<close>, \<open>SuspendTest\<close>, \<open>ResumeTest\<close> and \<open>PriorityTest\<close> are the first halves of the
  control operations and \<open>ControlWrite\<close> is the second half of the one in progress;
  \<open>Result\<close> is the writes of \<^verbatim>\<open>execute_job\<close> after \<^verbatim>\<open>waitpid\<close> and \<open>Release\<close> its call of
  \<^verbatim>\<open>release_core\<close>. \<open>Kill\<close>, \<open>Suspend\<close>, \<open>Resume\<close>, \<open>ChangePriority\<close> and \<open>Reaped\<close> are the
  two halves with no step of another thread between them.
\<close>

fun exec :: "event \<Rightarrow> system \<Rightarrow> system option" where
  "exec (Submit cmd p now) sys = idle_do (\<lambda>s. snd (submit_job cmd p now s)) sys"
| "exec (SubmitWithDeps cmd deps p now) sys =
     idle_do (\<lambda>s. snd (submit_job_with_deps cmd deps p now s)) sys"
| "exec (SubmitScript path file now) sys =
     (if shell sys = MainIdle then
        (case parse_job_script_submit path file now (sched sys) of
           Inl e \<Rightarrow> Some sys
         | Inr (job, v, s') \<Rightarrow> Some (sys\<lparr>sched := s', shell := ScriptTail job v\<rparr>))
      else None)"
| "exec ScriptFields sys =
     (case shell sys of
        ScriptTail job v \<Rightarrow>
          Some (sys\<lparr>sched := parse_job_script_fields job v (sched sys), shell := MainIdle\<rparr>)
      | _ \<Rightarrow> None)"
| "exec (SubmitArray template array_size p) sys =
     (if shell sys = MainIdle
      then Some (sys\<lparr>shell := ArrayLoop template array_size p (next_job_id (sched sys)) 0\<rparr>)
      else None)"
| "exec (ArrayNext now) sys =
     (case shell sys of
        ArrayLoop template array_size p array_id i \<Rightarrow>
          (if i < array_size then
             (let (job, s') = submit_job (array_command template i) p now (sched sys)
              in Some (sys\<lparr>sched := s', shell := ArrayTail template array_size p array_id i job\<rparr>))
           else Some (sys\<lparr>shell := MainIdle\<rparr>))
      | _ \<Rightarrow> None)"
| "exec ArrayFields sys =
     (case shell sys of
        ArrayTail template array_size p array_id i job \<Rightarrow>
          Some (sys\<lparr>sched := array_fields array_id i job (sched sys),
                    shell := ArrayLoop template array_size p array_id (i + 1)\<rparr>)
      | _ \<Rightarrow> None)"
| "exec (Kill jid) sys = idle_do (\<lambda>s. snd (kill_job jid s)) sys"
| "exec (Suspend jid) sys = idle_do (\<lambda>s. snd (suspend_job jid s)) sys"
| "exec (Resume jid) sys = idle_do (\<lambda>s. snd (resume_job jid s)) sys"
| "exec (ChangePriority jid p) sys = idle_do (\<lambda>s. snd (change_job_priority jid p s)) sys"
| "exec (KillFind jid) sys = idle_test (kill_job_find jid (sched sys)) Killing sys"
| "exec (SuspendTest jid) sys = idle_test (suspend_job_test jid (sched sys)) Suspending sys"
| "exec (ResumeTest jid) sys = idle_test (resume_job_test jid (sched sys)) Resuming sys"
| "exec (PriorityTest jid p) sys =
     idle_test (change_job_priority_test jid (sched sys)) (\<lambda>job. Prioritising job p) sys"
| "exec ControlWrite sys =
     (case shell sys of
        Killing job \<Rightarrow> Some (sys\<lparr>sched := kill_job_write job (sched sys), shell := MainIdle\<rparr>)
      | Suspending job \<Rightarrow>
          Some (sys\<lparr>sched := suspend_job_write job (sched sys), shell := MainIdle\<rparr>)
      | Resuming job \<Rightarrow> Some (sys\<lparr>sched := resume_job_write job (sched sys), shell := MainIdle\<rparr>)
      | Prioritising job p \<Rightarrow>
          Some (sys\<lparr>sched := change_job_priority_write job p (sched sys), shell := MainIdle\<rparr>)
      | _ \<Rightarrow> None)"
| "exec (SetPolicy policy) sys = idle_do (\<lambda>s. s\<lparr>current_policy := policy\<rparr>) sys"
| "exec (SetMaxJobs n) sys = idle_do (\<lambda>s. s\<lparr>max_concurrent_jobs := n\<rparr>) sys"
| "exec (EnableAffinity b) sys = idle_do (\<lambda>s. s\<lparr>cpu_affinity_enabled := b\<rparr>) sys"
| "exec (Take w) sys =
     (if worker_at w sys = Some AtWait \<and> \<not> locked sys \<and> running (sched sys) \<and>
         job_queue (sched sys) \<noteq> [] then
        (case worker_take (sched sys) of
           (Some job, s') \<Rightarrow> Some (move w (Holding job) s' sys)
         | (None, s') \<Rightarrow> Some (move w AtWait s' sys))
      else None)"
| "exec (Mark w now) sys =
     (case worker_at w sys of
        Some (Holding job) \<Rightarrow> Some (move w (Started job) (execute_job_mark w now job (sched sys)) sys)
      | _ \<Rightarrow> None)"
| "exec (AssignCore w now) sys =
     (case worker_at w sys of
        Some (Started job) \<Rightarrow>
          (if locked sys then None
           else Some (move w (HasCore job) (execute_job_assign now job (sched sys)) sys))
      | _ \<Rightarrow> None)"
| "exec (Fork w r1 r2 pid) sys =
     (case worker_at w sys of
        Some (HasCore job) \<Rightarrow>
          (if pid = 0 then None
           else Some (move w (if pid > 0 then InWaitpid job else Ending job)
                        (execute_job_fork r1 r2 pid job (sched sys)) sys))
      | _ \<Rightarrow> None)"
| "exec (Reaped w ws now) sys =
     (case worker_at w sys of
        Some (InWaitpid job) \<Rightarrow>
          (if release_waits job sys then None
           else Some (move w (Returned job) (execute_job_reaped ws now job (sched sys)) sys))
      | _ \<Rightarrow> None)"
| "exec (Result w ws now) sys =
     (case worker_at w sys of
        Some (InWaitpid job) \<Rightarrow>
          Some (move w (Ending job) (execute_job_result ws now job (sched sys)) sys)
      | _ \<Rightarrow> None)"
| "exec (Release w) sys =
     (case worker_at w sys of
        Some (Ending job) \<Rightarrow>
          (if release_waits job sys then None
           else Some (move w (Returned job) (execute_job_release job (sched sys)) sys))
      | _ \<Rightarrow> None)"
| "exec (Finish w) sys =
     (case worker_at w sys of
        Some (Returned job) \<Rightarrow>
          (if locked sys then None
           else Some (move w AtWait (worker_done job (sched sys)) sys))
      | _ \<Rightarrow> None)"
| "exec StopBegin sys =
     (if shell sys = MainIdle
      then Some (sys\<lparr>sched := (sched sys)\<lparr>running := False\<rparr>, shell := Stopping\<rparr>)
      else None)"
| "exec (Leave w) sys =
     (if worker_at w sys = Some AtWait \<and> \<not> locked sys \<and> \<not> running (sched sys)
      then Some (move w ThreadExit (sched sys) sys)
      else None)"
| "exec StopEnd sys =
     (if shell sys = Stopping \<and> list_all (\<lambda>pc. pc = ThreadExit) (workers sys)
      then Some (sys\<lparr>sched := (sched sys)\<lparr>active_jobs := []\<rparr>, shell := Stopped\<rparr>)
      else None)"

fun run :: "event list \<Rightarrow> system \<Rightarrow> system option" where
  "run [] sys = Some sys"
| "run (e # es) sys = (case exec e sys of None \<Rightarrow> None | Some sys' \<Rightarrow> run es sys')"

text \<open>
  The system as \<^verbatim>\<open>Shell::Shell()\<close> leaves it: a scheduler constructed for \<open>n\<close> cores
  and started once.
\<close>

definition boot :: "nat \<Rightarrow> time_point \<Rightarrow> system" where
  "boot n now =
     \<lparr>sched = (new_scheduler n now)\<lparr>running := True\<rparr>, workers = replicate n AtWait,
      shell = MainIdle\<rparr>"

definition reachable :: "nat \<Rightarrow> system \<Rightarrow> bool" where
  "reachable n sys = (\<exists>es now. run es (boot n now) = Some sys)"

definition job_at :: "system \<Rightarrow> JobPtr \<Rightarrow> JobMetadata" where
  "job_at sys p = all_jobs (sched sys) ! p"

section \<open>Invariants of the running system\<close>

text \<open>
  The job a worker holds at a point of \<^verbatim>\<open>worker_function\<close>; whether the point lies between
  \<^verbatim>\<open>assign_core\<close> and \<^verbatim>\<open>release_core\<close>, between the first write of \<^verbatim>\<open>execute_job\<close> and
  \<^verbatim>\<open>assign_core\<close>, or before \<^verbatim>\<open>assign_core\<close>. The job that \<^verbatim>\<open>kill_job\<close>, \<^verbatim>\<open>suspend_job\<close> or
  \<^verbatim>\<open>resume_job\<close> has found and is about to write, and the job whose status the last two
  have tested.
\<close>

fun pc_job :: "worker_pc \<Rightarrow> JobPtr option" where
  "pc_job AtWait = None"
| "pc_job (Holding p) = Some p"
| "pc_job (Started p) = Some p"
| "pc_job (HasCore p) = Some p"
| "pc_job (InWaitpid p) = Some p"
| "pc_job (Ending p) = Some p"
| "pc_job (Returned p) = Some p"
| "pc_job ThreadExit = None"

fun has_core :: "worker_pc \<Rightarrow> bool" where
  "has_core (HasCore p) = True"
| "has_core (InWaitpid p) = True"
| "has_core (Ending p) = True"
| "has_core pc = False"

fun started :: "worker_pc \<Rightarrow> bool" where
  "started (Started p) = True"
| "started pc = False"

fun shell_job :: "main_pc \<Rightarrow> JobPtr option" where
  "shell_job (Killing p) = Some p"
| "shell_job (Suspending p) = Some p"
| "shell_job (Resuming p) = Some p"
| "shell_job pc = None"

fun tested :: "main_pc \<Rightarrow> JobPtr option" where
  "tested (Suspending p) = Some p"
| "tested (Resuming p) = Some p"
| "tested pc = None"

definition holds :: "worker_pc list \<Rightarrow> nat \<Rightarrow> JobPtr \<Rightarrow> bool" where
  "holds ws w p = (w < length ws \<and> pc_job (ws ! w) = Some p)"

fun early :: "worker_pc \<Rightarrow> bool" where
  "early (Holding p) = True"
| "early (Started p) = True"
| "early pc = False"

definition held :: "worker_pc list \<Rightarrow> JobPtr set" where
  "held ws = {p. \<exists>w. holds ws w p}"

definition unique_holder :: "worker_pc list \<Rightarrow> bool" where
  "unique_holder ws = (\<forall>w1 w2 p. holds ws w1 p \<longrightarrow> holds ws w2 p \<longrightarrow> w1 = w2)"

text \<open>
  Structure: there are as many workers as cores; the queue holds each pointer once, and
  only pending jobs; every job held by a worker is in none of the queue and is not
  waiting for dependencies; no two workers hold the same job; the active list holds each
  pointer once, and only jobs that some worker holds; the job that a control operation
  is about to write is held by a worker.
\<close>

definition inv_struct :: "nat \<Rightarrow> system \<Rightarrow> bool" where
  "inv_struct n sys =
     (let s = sched sys; ws = workers sys in
        length ws = n \<and> length (core_availability s) = n \<and> num_cores s = n \<and>
        distinct (job_queue s) \<and>
        (\<forall>p \<in> set (job_queue s). p < length (all_jobs s) \<and> status (all_jobs s ! p) = PENDING) \<and>
        (\<forall>p \<in> held ws.
           p < length (all_jobs s) \<and> p \<notin> set (job_queue s) \<and>
           status (all_jobs s ! p) \<noteq> WAITING_DEPS) \<and>
        unique_holder ws \<and>
        set (active_jobs s) \<subseteq> held ws \<and> distinct (active_jobs s) \<and>
        (\<forall>p. shell_job (shell sys) = Some p \<longrightarrow> p \<in> held ws))"

text \<open>
  Cores: the core of each worker between \<^verbatim>\<open>assign_core\<close> and \<^verbatim>\<open>release_core\<close> is a slot
  of the table marked unavailable, no two such workers have the same core, and every
  unavailable slot is the core of such a worker.
\<close>

definition core_of :: "JobScheduler \<Rightarrow> worker_pc list \<Rightarrow> nat \<Rightarrow> int option" where
  "core_of s ws w =
     (if w < length ws \<and> has_core (ws ! w)
      then map_option (\<lambda>p. assigned_core_id (all_jobs s ! p)) (pc_job (ws ! w))
      else None)"

definition inv_cores :: "nat \<Rightarrow> system \<Rightarrow> bool" where
  "inv_cores n sys =
     (let s = sched sys; ws = workers sys; av = core_availability s in
        (\<forall>w c. core_of s ws w = Some c \<longrightarrow> 0 \<le> c \<and> c < int n \<and> \<not> av ! nat c) \<and>
        (\<forall>w1 w2 c. core_of s ws w1 = Some c \<longrightarrow> core_of s ws w2 = Some c \<longrightarrow> w1 = w2) \<and>
        (\<forall>k < n. \<not> av ! k \<longrightarrow> (\<exists>w. core_of s ws w = Some (int k))))"

text \<open>
  Status: a job that is \<open>RUNNING\<close> or \<open>SUSPENDED\<close>, or that \<^verbatim>\<open>suspend_job\<close> or
  \<^verbatim>\<open>resume_job\<close> has tested and is about to write, is placed: its worker has made the
  first write of \<^verbatim>\<open>execute_job\<close> and not yet called \<^verbatim>\<open>assign_core\<close>, or its core id is in
  the range. The status says no more than that, since \<^verbatim>\<open>resume_job\<close> can write \<open>RUNNING\<close>
  after \<^verbatim>\<open>execute_job\<close> has written the last status of the job.
\<close>

definition placed :: "nat \<Rightarrow> system \<Rightarrow> JobPtr \<Rightarrow> bool" where
  "placed n sys p =
     ((\<exists>w. holds (workers sys) w p \<and> started (workers sys ! w)) \<or>
      (0 \<le> assigned_core_id (all_jobs (sched sys) ! p) \<and>
       assigned_core_id (all_jobs (sched sys) ! p) < int n))"

definition inv_status :: "nat \<Rightarrow> system \<Rightarrow> bool" where
  "inv_status n sys =
     (let s = sched sys in
        \<forall>p < length (all_jobs s).
           status (all_jobs s ! p) = RUNNING \<or> status (all_jobs s ! p) = SUSPENDED \<or>
           tested (shell sys) = Some p \<longrightarrow> placed n sys p)"

text \<open>
  Fresh: a job in the queue, waiting for dependencies, or held by a worker before
  \<^verbatim>\<open>assign_core\<close> still has the core id \<open>- 1\<close> of the constructor.
\<close>

definition inv_fresh :: "system \<Rightarrow> bool" where
  "inv_fresh sys =
     (let s = sched sys; ws = workers sys in
        \<forall>p < length (all_jobs s).
           p \<in> set (job_queue s) \<or> status (all_jobs s ! p) = WAITING_DEPS \<or>
           (\<exists>w. holds ws w p \<and> early (ws ! w)) \<longrightarrow>
           assigned_core_id (all_jobs s ! p) = - 1)"

text \<open>The four invariants together.\<close>

definition inv_all :: "nat \<Rightarrow> system \<Rightarrow> bool" where
  "inv_all n sys = (inv_struct n sys \<and> inv_cores n sys \<and> inv_status n sys \<and> inv_fresh sys)"

section \<open>The shapes of a step\<close>

text \<open>
  Every step is of one of six shapes. A quiet step rewrites at most one record, keeps its
  core id, changes its status only if a worker holds it, and leaves the queue and the
  table alone; the other shapes are a submission, taking a job, assigning a core, releasing
  a core (with the last status, or after it), and the worker's second critical section,
  which cannot happen while a control operation holds the lock.
\<close>

definition touch :: "JobScheduler \<Rightarrow> JobPtr \<Rightarrow> JobMetadata \<Rightarrow> JobScheduler \<Rightarrow> bool" where
  "touch s q j' s' =
     (all_jobs s' = (all_jobs s)[q := j'] \<and> job_queue s' = job_queue s \<and>
      (active_jobs s' = active_jobs s \<or> active_jobs s' = []) \<and>
      core_availability s' = core_availability s \<and> num_cores s' = num_cores s)"

definition quiet_step :: "system \<Rightarrow> system \<Rightarrow> bool" where
  "quiet_step sys sys' =
     (let s = sched sys; ws = workers sys; ws' = workers sys' in
      length ws' = length ws \<and>
      (\<forall>w < length ws. pc_job (ws' ! w) = pc_job (ws ! w) \<and> has_core (ws' ! w) = has_core (ws ! w)
          \<and> (started (ws ! w) \<longrightarrow> started (ws' ! w)) \<and> (early (ws' ! w) \<longrightarrow> early (ws ! w))) \<and>
      (\<forall>p. shell_job (shell sys') = Some p \<longrightarrow>
           shell_job (shell sys) = Some p \<or> p \<in> set (active_jobs s)) \<and>
      (\<forall>p. tested (shell sys') = Some p \<longrightarrow>
           tested (shell sys) = Some p \<or>
           status (all_jobs s ! p) = RUNNING \<or> status (all_jobs s ! p) = SUSPENDED) \<and>
      (\<exists>q j'. touch s q j' (sched sys') \<and>
         assigned_core_id j' = assigned_core_id (all_jobs s ! q) \<and>
         (status j' = status (all_jobs s ! q) \<or>
          (q \<in> held ws \<and> status j' \<noteq> WAITING_DEPS \<and>
           (status j' = RUNNING \<or> status j' = SUSPENDED \<longrightarrow>
              status (all_jobs s ! q) = RUNNING \<or> status (all_jobs s ! q) = SUSPENDED \<or>
              tested (shell sys) = Some q \<or>
              (\<exists>w. holds ws' w q \<and> started (ws' ! w)))))))"

definition appended :: "JobScheduler \<Rightarrow> JobScheduler \<Rightarrow> bool" where
  "appended s s' =
     (\<exists>j. all_jobs s' = all_jobs s @ [j] \<and> assigned_core_id j = - 1 \<and>
        ((status j = PENDING \<and>
          set (job_queue s') = insert (length (all_jobs s)) (set (job_queue s)) \<and>
          (distinct (job_queue s') \<longleftrightarrow>
             length (all_jobs s) \<notin> set (job_queue s) \<and> distinct (job_queue s)))
         \<or> (status j = WAITING_DEPS \<and> job_queue s' = job_queue s)) \<and>
        active_jobs s' = active_jobs s \<and> core_availability s' = core_availability s \<and>
        num_cores s' = num_cores s)"

definition append_step :: "system \<Rightarrow> system \<Rightarrow> bool" where
  "append_step sys sys' =
     (workers sys' = workers sys \<and> shell_job (shell sys') = None \<and>
      appended (sched sys) (sched sys'))"

definition take_step :: "nat \<Rightarrow> JobPtr \<Rightarrow> system \<Rightarrow> system \<Rightarrow> bool" where
  "take_step w job sys sys' =
     (let s = sched sys; s' = sched sys' in
      w < length (workers sys) \<and> workers sys ! w = AtWait \<and>
      workers sys' = (workers sys)[w := Holding job] \<and>
      job_queue s \<noteq> [] \<and> job = hd (job_queue s) \<and>
      mset (job_queue s') = mset (tl (job_queue s)) \<and>
      active_jobs s' = active_jobs s @ [job] \<and> all_jobs s' = all_jobs s \<and>
      core_availability s' = core_availability s \<and> num_cores s' = num_cores s \<and>
      shell sys' = shell sys)"

definition assign_step :: "nat \<Rightarrow> JobPtr \<Rightarrow> nat \<Rightarrow> system \<Rightarrow> system \<Rightarrow> bool" where
  "assign_step w q k sys sys' =
     (let s = sched sys; s' = sched sys' in
      w < length (workers sys) \<and> workers sys ! w = Started q \<and>
      workers sys' = (workers sys)[w := HasCore q] \<and>
      k < length (core_availability s) \<and> core_availability s ! k \<and>
      all_jobs s' = (all_jobs s)[q := (all_jobs s ! q)\<lparr>assigned_core_id := int k\<rparr>] \<and>
      core_availability s' = (core_availability s)[k := False] \<and>
      job_queue s' = job_queue s \<and> active_jobs s' = active_jobs s \<and>
      num_cores s' = num_cores s \<and> shell sys' = shell sys)"

definition release_step :: "nat \<Rightarrow> JobPtr \<Rightarrow> JobMetadata \<Rightarrow> system \<Rightarrow> system \<Rightarrow> bool" where
  "release_step w q j' sys sys' =
     (let s = sched sys; s' = sched sys' in
      w < length (workers sys) \<and> has_core (workers sys ! w) \<and> pc_job (workers sys ! w) = Some q \<and>
      workers sys' = (workers sys)[w := Returned q] \<and>
      all_jobs s' = (all_jobs s)[q := j'] \<and>
      assigned_core_id j' = assigned_core_id (all_jobs s ! q) \<and>
      (status j' = status (all_jobs s ! q) \<or> status j' = COMPLETED \<or> status j' = FAILED) \<and>
      core_availability s' =
        core_availability (release_core (assigned_core_id (all_jobs s ! q)) s) \<and>
      job_queue s' = job_queue s \<and> active_jobs s' = active_jobs s \<and>
      num_cores s' = num_cores s \<and> shell sys' = shell sys)"

text \<open>
  The test of \<^verbatim>\<open>update_job_dependencies\<close> on job \<open>p\<close> when job \<open>c\<close> has ended, and the
  effect of the whole pass: the set \<open>R\<close> of the jobs it releases.
\<close>

definition may_release :: "JobPtr \<Rightarrow> JobScheduler \<Rightarrow> JobPtr \<Rightarrow> bool" where
  "may_release c s p =
     (p < length (all_jobs s) \<and> status (all_jobs s ! p) = WAITING_DEPS \<and>
      job_id (all_jobs s ! c) \<in> set (dependencies (all_jobs s ! p)) \<and>
      dependencies_satisfied (all_jobs s ! p) (all_jobs s))"

definition released_by :: "JobPtr \<Rightarrow> nat set \<Rightarrow> JobScheduler \<Rightarrow> JobScheduler \<Rightarrow> bool" where
  "released_by c R s s' =
     (finite R \<and> (\<forall>p \<in> R. may_release c s p) \<and>
      length (all_jobs s') = length (all_jobs s) \<and>
      (\<forall>p < length (all_jobs s).
         all_jobs s' ! p = (if p \<in> R then (all_jobs s ! p)\<lparr>status := PENDING\<rparr> else all_jobs s ! p)) \<and>
      mset (job_queue s') = mset (job_queue s) + mset_set R \<and>
      active_jobs s' = active_jobs s \<and> completed_jobs s' = completed_jobs s \<and>
      core_availability s' = core_availability s \<and> num_cores s' = num_cores s)"

definition finished :: "JobPtr \<Rightarrow> nat set \<Rightarrow> JobScheduler \<Rightarrow> JobScheduler \<Rightarrow> bool" where
  "finished q R s s' =
     (finite R \<and> (\<forall>p \<in> R. may_release q s p) \<and>
      length (all_jobs s') = length (all_jobs s) \<and>
      (\<forall>p < length (all_jobs s).
         all_jobs s' ! p = (if p \<in> R then (all_jobs s ! p)\<lparr>status := PENDING\<rparr> else all_jobs s ! p)) \<and>
      mset (job_queue s') = mset (job_queue s) + mset_set R \<and>
      active_jobs s' = remove1 q (active_jobs s) \<and>
      core_availability s' = core_availability s \<and> num_cores s' = num_cores s)"

definition finish_step :: "nat \<Rightarrow> JobPtr \<Rightarrow> nat set \<Rightarrow> system \<Rightarrow> system \<Rightarrow> bool" where
  "finish_step w q R sys sys' =
     (w < length (workers sys) \<and> workers sys ! w = Returned q \<and>
      workers sys' = (workers sys)[w := AtWait] \<and> finished q R (sched sys) (sched sys') \<and>
      shell sys' = shell sys \<and> shell_job (shell sys) = None)"

section \<open>Example inputs\<close>

definition status_of :: "system option \<Rightarrow> JobPtr \<Rightarrow> JobStatus option" where
  "status_of r p = map_option (\<lambda>sys. status (job_at sys p)) r"

text \<open>A table of two cores of which the second is taken.\<close>

definition busy_table_example :: JobScheduler where
  "busy_table_example = (new_scheduler 2 0)\<lparr>core_availability := [True, False]\<rparr>"

text \<open>
  One job is submitted at time 0, taken by worker 0 and started one second later; its
  child has pid 4242.
\<close>

definition start_one :: "event list" where
  "start_one =
     [Submit ''sleep 5'' MEDIUM 0, Take 0, Mark 0 1000000000, AssignCore 0 1000000000,
      Fork 0 3 4 4242]"

definition unlines :: "string list \<Rightarrow> string" where
  "unlines ls = concat (map (\<lambda>l. l @ [newline]) ls)"

text \<open>The job script that README.md gives as its example, with its empty seventh line.\<close>

definition readme_example :: string where
  "readme_example = unlines
     [''# example_job.sh'',
      ''# JOB_NAME: Data Processing'',
      ''# PRIORITY: HIGH'',
      ''# MEMORY_LIMIT: 2048'',
      ''# RUNTIME_LIMIT: 300'',
      ''# CORES: 4'',
      [],
      ''python3 process_data.py --input data.csv --output results.json'']"

definition small_limit_script :: string where
  "small_limit_script = unlines [''# MEMORY_LIMIT: 5'', ''echo hi'']"

text \<open>
  Three jobs: the second depends on the first, the third on the first and the second. The
  first is run until its child has exited with code 0.
\<close>

definition start_two :: "event list" where
  "start_two =
     [Submit ''true'' MEDIUM 0, SubmitWithDeps ''echo done'' [1] MEDIUM 0,
      SubmitWithDeps ''echo both'' [1, 2] MEDIUM 0, Take 0, Mark 0 1, AssignCore 0 1,
      Fork 0 3 4 4242, Reaped 0 (Exited 0) 2]"

text \<open>One job from submission to the end of the worker's second critical section.\<close>

definition one_job :: "event list" where
  "one_job =
     [Submit ''true'' MEDIUM 0, Take 0, Mark 0 0, AssignCore 0 0, Fork 0 0 0 1,
      Reaped 0 (Exited 0) 0, Finish 0]"

definition many_jobs :: "nat \<Rightarrow> event list" where
  "many_jobs k = concat (replicate k one_job)"

text \<open>A system with one worker and one core in which nothing is queued or running.\<close>

definition at_rest :: "system \<Rightarrow> bool" where
  "at_rest sys =
     (workers sys = [AtWait] \<and> shell sys = MainIdle \<and> running (sched sys) \<and>
      job_queue (sched sys) = [] \<and> active_jobs (sched sys) = [] \<and>
      core_availability (sched sys) = [True] \<and> 0 < max_concurrent_jobs (sched sys) \<and>
      list_all (\<lambda>j. status j \<noteq> WAITING_DEPS) (all_jobs (sched sys)))"

section \<open>The core table: allocation of several cores\<close>

lemma free_from_step:
  "i < length av \<Longrightarrow> free_from i av = (if av ! i then [i] else []) @ free_from (Suc i) av"
  by (simp add: free_from_def upt_conv_Cons)

lemma free_from_end: "length av \<le> i \<Longrightarrow> free_from i av = []"
  by (simp add: free_from_def)

lemma free_from_update_before:
  "k < i \<Longrightarrow> free_from i (av[k := b]) = free_from i av"
  by (auto simp: free_from_def intro!: filter_cong)

lemma free_from_ge: "k \<in> set (free_from i av) \<Longrightarrow> i \<le> k \<and> k < length av \<and> av ! k"
  by (auto simp: free_from_def)

lemma assign_multiple_cores_from_fst:
  "fst (assign_multiple_cores_from cnt i now s acc) =
     acc @ map int (take (cnt - length acc) (free_from i (core_availability s)))"
proof (induction cnt i now s acc rule: assign_multiple_cores_from.induct)
  case (1 cnt i now s acc)
  show ?case
  proof (cases "i < length (core_availability s) \<and> length acc < cnt")
    case False
    then show ?thesis
      by (subst assign_multiple_cores_from.simps) (auto simp: free_from_end)
  next
    case True
    then obtain m where m: "cnt - length acc = Suc m" by (cases "cnt - length acc") auto
    show ?thesis
    proof (cases "core_availability s ! i")
      case av: True
      have "cnt - Suc (length acc) = m" using m by simp
      with 1(1)[OF True av] True av m show ?thesis
        by (subst assign_multiple_cores_from.simps)
           (simp add: free_from_step[of i "core_availability s"] free_from_update_before)
    next
      case av: False
      with 1(2)[OF True av] True show ?thesis
        by (subst assign_multiple_cores_from.simps)
           (simp add: free_from_step[of i "core_availability s"])
    qed
  qed
qed

lemma assign_multiple_cores_from_length:
  "length (core_availability (snd (assign_multiple_cores_from cnt i now s acc))) =
     length (core_availability s)"
proof (induction cnt i now s acc rule: assign_multiple_cores_from.induct)
  case (1 cnt i now s acc)
  then show ?case
    by (subst assign_multiple_cores_from.simps) auto
qed

lemma assign_multiple_cores_from_nth:
  "k < length (core_availability s) \<Longrightarrow>
   core_availability (snd (assign_multiple_cores_from cnt i now s acc)) ! k =
     (core_availability s ! k \<and>
      k \<notin> set (take (cnt - length acc) (free_from i (core_availability s))))"
proof (induction cnt i now s acc rule: assign_multiple_cores_from.induct)
  case (1 cnt i now s acc)
  show ?case
  proof (cases "i < length (core_availability s) \<and> length acc < cnt")
    case False
    then show ?thesis
      by (subst assign_multiple_cores_from.simps)
         (auto simp: free_from_end dest: in_set_takeD free_from_ge)
  next
    case True
    then obtain m where m: "cnt - length acc = Suc m" by (cases "cnt - length acc") auto
    show ?thesis
    proof (cases "core_availability s ! i")
      case av: True
      have m': "cnt - Suc (length acc) = m" using m by simp
      have notin: "i \<notin> set (take m (free_from (Suc i) (core_availability s)))"
        by (auto dest!: in_set_takeD free_from_ge)
      from 1(1)[OF True av] 1(3) True av m m' notin show ?thesis
        by (subst assign_multiple_cores_from.simps)
           (auto simp: free_from_step[of i "core_availability s"] free_from_update_before
              nth_list_update)
    next
      case av: False
      with 1(2)[OF True av] 1(3) True show ?thesis
        by (subst assign_multiple_cores_from.simps)
           (simp add: free_from_step[of i "core_availability s"])
    qed
  qed
qed

lemma busy_table_run:
  "assign_multiple_cores 2 7 busy_table_example =
     ([0], busy_table_example\<lparr>core_availability := [False, False], core_last_used := [7, 0]\<rparr>)"
  by (simp add: assign_multiple_cores_def assign_multiple_cores_from.simps size_t_of_int_def
      busy_table_example_def new_scheduler_def numeral_2_eq_2)

text \<open>
  C4, as the code has it: \<^verbatim>\<open>assign_multiple_cores(count)\<close> returns the free slots of
  lowest index, as many as there are up to \<^verbatim>\<open>count\<close> (read as a \<^verbatim>\<open>size_t\<close>), marks
  exactly the returned slots unavailable and leaves every other slot as it was. When at
  least \<^verbatim>\<open>count\<close> slots are free it returns exactly \<^verbatim>\<open>count\<close>; when fewer are free it
  returns and allocates all of them.
\<close>

theorem assign_multiple_cores_lowest_free:
  assumes "assign_multiple_cores cnt now s = (cs, s')"
  shows "cs = map int (take (size_t_of_int cnt) (free_cores s)) \<and>
         length cs = min (size_t_of_int cnt) (length (free_cores s)) \<and>
         length (core_availability s') = length (core_availability s) \<and>
         (\<forall>k < length (core_availability s).
            core_availability s' ! k = (core_availability s ! k \<and> int k \<notin> set cs))"
proof -
  let ?r = "assign_multiple_cores_from (size_t_of_int cnt) 0 now s []"
  have cs: "cs = fst ?r" and s': "s' = snd ?r"
    using assms by (simp_all add: assign_multiple_cores_def)
  have 1: "cs = map int (take (size_t_of_int cnt) (free_cores s))"
    by (simp add: cs assign_multiple_cores_from_fst free_cores_def)
  have 2: "length cs = min (size_t_of_int cnt) (length (free_cores s))"
    by (simp add: 1 min.commute)
  have 3: "length (core_availability s') = length (core_availability s)"
    by (simp add: s' assign_multiple_cores_from_length)
  have 4: "core_availability s' ! k = (core_availability s ! k \<and> int k \<notin> set cs)"
    if "k < length (core_availability s)" for k
    using assign_multiple_cores_from_nth[OF that, of "size_t_of_int cnt" 0 now "[]"]
    by (auto simp: s' 1 free_cores_def)
  from 1 2 3 4 show ?thesis by blast
qed

text \<open>The theorem at the table with one free core out of two, asked for two cores.\<close>

theorem assign_multiple_cores_lowest_free_witness:
  "assign_multiple_cores 2 7 busy_table_example =
     ([0], busy_table_example\<lparr>core_availability := [False, False], core_last_used := [7, 0]\<rparr>) \<and>
   [0] = map int (take (size_t_of_int 2) (free_cores busy_table_example)) \<and>
   length [0::int] = min (size_t_of_int 2) (length (free_cores busy_table_example))"
  using assign_multiple_cores_lowest_free[OF busy_table_run] busy_table_run by simp

text \<open>
  C4 as stated fails: with one core free, a request for two neither returns two cores nor
  leaves the table unchanged; it takes the one free core.
\<close>

theorem assign_multiple_cores_partial_counterexample:
  "\<not> (let (cs, s') = assign_multiple_cores 2 7 busy_table_example
      in length cs = 2 \<or> (cs = [] \<and> core_availability s' = core_availability busy_table_example))"
  by (simp add: busy_table_run)

section \<open>Steps in two halves\<close>

text \<open>
  Each control operation as one step is its test followed at once by its write, when the
  test lets it go on.
\<close>

lemma control_in_two_steps:
  "exec (Kill jid) sys =
     (case exec (KillFind jid) sys of
        None \<Rightarrow> None | Some sys1 \<Rightarrow> if locked sys1 then exec ControlWrite sys1 else Some sys1)"
  "exec (Suspend jid) sys =
     (case exec (SuspendTest jid) sys of
        None \<Rightarrow> None | Some sys1 \<Rightarrow> if locked sys1 then exec ControlWrite sys1 else Some sys1)"
  "exec (Resume jid) sys =
     (case exec (ResumeTest jid) sys of
        None \<Rightarrow> None | Some sys1 \<Rightarrow> if locked sys1 then exec ControlWrite sys1 else Some sys1)"
  "exec (ChangePriority jid pr) sys =
     (case exec (PriorityTest jid pr) sys of
        None \<Rightarrow> None | Some sys1 \<Rightarrow> if locked sys1 then exec ControlWrite sys1 else Some sys1)"
  by (auto simp: idle_do_def idle_test_def locked_def kill_job_def kill_job_find_def
      kill_job_write_def suspend_job_def suspend_job_test_def suspend_job_write_def
      resume_job_def resume_job_test_def resume_job_write_def change_job_priority_def
      change_job_priority_test_def change_job_priority_write_def split: option.splits)

lemma execute_job_result_core:
  "assigned_core_id (all_jobs (execute_job_result ws now q s) ! q) = assigned_core_id (all_jobs s ! q)"
  "core_availability (execute_job_result ws now q s) = core_availability s"
  by (cases "q < length (all_jobs s)"; cases ws;
      simp add: execute_job_result_def upd_job_def Let_def list_update_beyond)+

text \<open>
  \<open>Reaped\<close> is \<open>Result\<close> followed at once by \<open>Release\<close>.
\<close>

lemma reaped_in_two_steps:
  "exec (Reaped w ws now) sys =
     (case exec (Result w ws now) sys of None \<Rightarrow> None | Some sys1 \<Rightarrow> exec (Release w) sys1)"
  by (auto simp: worker_at_def move_def locked_def release_waits_def execute_job_reaped_def
      execute_job_result_core split: option.splits worker_pc.splits)

section \<open>The ready queue keeps its elements\<close>

lemma mset_update_twice:
  assumes "h < length xs" "p < length xs" "p \<noteq> h"
  shows "mset (xs[h := xs ! p, p := v]) = mset (xs[h := v])"
  using assms by (simp add: mset_update)

lemma push_heap_loop_length [simp]:
  "length (push_heap_loop lt xs h t v) = length xs"
  by (induction lt xs h t v rule: push_heap_loop.induct)
     (subst push_heap_loop.simps, auto)

lemma push_heap_loop_mset:
  "h < length xs \<Longrightarrow> mset (push_heap_loop lt xs h t v) = mset (xs[h := v])"
proof (induction lt xs h t v rule: push_heap_loop.induct)
  case (1 lt xs h t v)
  show ?case
  proof (cases "h > t \<and> lt (xs ! ((h - 1) div 2)) v")
    case True
    then have ph: "(h - 1) div 2 < h" by auto
    with 1(2) have pl: "(h - 1) div 2 < length xs" by simp
    have "mset (push_heap_loop lt xs h t v) =
          mset (xs[h := xs ! ((h - 1) div 2), (h - 1) div 2 := v])"
      using 1(1)[OF True] True pl by (subst push_heap_loop.simps) simp
    also have "\<dots> = mset (xs[h := v])"
      using mset_update_twice[OF 1(2) pl] ph by simp
    finally show ?thesis .
  next
    case False
    then show ?thesis by (subst push_heap_loop.simps) auto
  qed
qed

lemma pq_push_mset [simp]: "mset (pq_push lt x q) = add_mset x (mset q)"
proof -
  have "mset (push_heap_loop lt (q @ [x]) (length q) 0 x) = mset ((q @ [x])[length q := x])"
    by (rule push_heap_loop_mset) simp
  then show ?thesis by (simp add: pq_push_def push_heap_def)
qed

lemma larger_child_bounds:
  "h < (len - 1) div 2 \<Longrightarrow> h < larger_child lt xs h \<and> larger_child lt xs h < len"
  by (auto simp: larger_child_def Let_def)

lemma adjust_heap_down_props:
  "h < len \<Longrightarrow> len \<le> length xs \<Longrightarrow> adjust_heap_down lt xs h len = (xs1, h1) \<Longrightarrow>
     h1 < len \<and> length xs1 = length xs \<and> mset (xs1[h1 := v]) = mset (xs[h := v])
     \<and> \<not> h1 < (len - 1) div 2"
proof (induction lt xs h len arbitrary: xs1 h1 rule: adjust_heap_down.induct)
  case (1 lt xs h len)
  show ?case
  proof (cases "h < (len - 1) div 2")
    case True
    let ?c = "larger_child lt xs h"
    from larger_child_bounds[OF True] have c: "h < ?c" "?c < len" by auto
    have eq: "adjust_heap_down lt (xs[h := xs ! ?c]) ?c len = (xs1, h1)"
      using 1(4) True by (subst (asm) adjust_heap_down.simps) simp
    from 1(1)[OF True c(2) _ eq] 1(3)
    have ih: "h1 < len" "length xs1 = length xs" "mset (xs1[h1 := v]) = mset (xs[h := xs ! ?c, ?c := v])"
      "\<not> h1 < (len - 1) div 2"
      by auto
    have "mset (xs[h := xs ! ?c, ?c := v]) = mset (xs[h := v])"
      using mset_update_twice[of h xs ?c v] c 1(2,3) by simp
    with ih show ?thesis by simp
  next
    case False
    with 1(2-4) show ?thesis by (subst (asm) adjust_heap_down.simps) auto
  qed
qed

lemma adjust_heap_mset:
  assumes "xs \<noteq> []"
  shows "mset (adjust_heap lt xs (length xs) v) = mset (xs[0 := v])"
proof -
  let ?len = "length xs"
  have len: "0 < ?len" using assms by simp
  obtain xs1 h1 where d: "adjust_heap_down lt xs 0 ?len = (xs1, h1)" by force
  from adjust_heap_down_props[OF len _ d, of v]
  have p: "h1 < ?len" "length xs1 = length xs" "mset (xs1[h1 := v]) = mset (xs[0 := v])"
    by auto
  show ?thesis
  proof (cases "?len mod 2 = 0 \<and> h1 = (?len - 2) div 2")
    case True
    then have c: "2 * (h1 + 1) - 1 < ?len" "2 * (h1 + 1) - 1 \<noteq> h1"
      using len by presburger+
    have "adjust_heap lt xs ?len v =
          push_heap_loop lt (xs1[h1 := xs1 ! (2 * (h1 + 1) - 1)]) (2 * (h1 + 1) - 1) 0 v"
      using True by (simp add: adjust_heap_def d)
    then have "mset (adjust_heap lt xs ?len v) =
          mset (xs1[h1 := xs1 ! (2 * (h1 + 1) - 1), 2 * (h1 + 1) - 1 := v])"
      using c p by (simp add: push_heap_loop_mset)
    also have "\<dots> = mset (xs1[h1 := v])"
      using mset_update_twice[of h1 xs1 "2 * (h1 + 1) - 1" v] c p by simp
    finally show ?thesis using p by simp
  next
    case False
    then have "adjust_heap lt xs ?len v = push_heap_loop lt xs1 h1 0 v"
      by (auto simp add: adjust_heap_def d)
    then show ?thesis
      using p by (simp add: push_heap_loop_mset)
  qed
qed

lemma pq_pop_mset: "q \<noteq> [] \<Longrightarrow> mset (pq_pop lt q) = mset (tl q)"
proof (cases "length q > 1")
  case True
  assume "q \<noteq> []"
  then obtain x r where q: "q = x # r" by (cases q) auto
  with True have r: "r \<noteq> []" by auto
  have bl: "butlast q = x # butlast r" "last q = last r" "length (butlast q) = length q - 1"
    using q r by simp_all
  have "mset (pq_pop lt q) = mset ((butlast q)[0 := last q])"
    using True adjust_heap_mset[of "butlast q" lt "last q"] bl
    by (simp add: pq_pop_def pop_heap_def)
  also have "\<dots> = mset (butlast r @ [last r])"
    using bl by simp
  also have "\<dots> = mset r"
    by (simp only: append_butlast_last_id[OF r])
  finally show ?thesis using q by simp
next
  case False
  assume "q \<noteq> []"
  with False obtain x where "q = [x]" by (cases q) auto
  then show ?thesis by (simp add: pq_pop_def pop_heap_def)
qed

section \<open>Every step keeps the invariants\<close>

lemma set_pq_push [simp]: "set (pq_push lt x q) = insert x (set q)"
  using mset_eq_setD[of "pq_push lt x q" "x # q"] by simp

lemma distinct_pq_push [simp]: "distinct (pq_push lt x q) = (x \<notin> set q \<and> distinct q)"
  using mset_eq_imp_distinct_iff[of "pq_push lt x q" "x # q"] by simp

lemma set_pq_pop: "q \<noteq> [] \<Longrightarrow> set (pq_pop lt q) = set (tl q)"
  using mset_eq_setD[OF pq_pop_mset[of q lt]] by simp

lemma distinct_pq_pop: "q \<noteq> [] \<Longrightarrow> distinct (pq_pop lt q) = distinct (tl q)"
  using mset_eq_imp_distinct_iff[of "pq_pop lt q" "tl q"] pq_pop_mset[of q lt] by simp

lemma find_in_set: "find P xs = Some x \<Longrightarrow> x \<in> set xs \<and> P x"
  by (auto simp: find_Some_iff)

lemma holds_cong:
  "length ws' = length ws \<Longrightarrow> \<forall>w < length ws. pc_job (ws' ! w) = pc_job (ws ! w) \<Longrightarrow>
   holds ws' = holds ws"
  by (auto simp: holds_def fun_eq_iff)

lemma held_cong:
  "length ws' = length ws \<Longrightarrow> \<forall>w < length ws. pc_job (ws' ! w) = pc_job (ws ! w) \<Longrightarrow>
   held ws' = held ws"
  using holds_cong[of ws' ws] by (simp add: held_def)

lemma unique_cong:
  "length ws' = length ws \<Longrightarrow> \<forall>w < length ws. pc_job (ws' ! w) = pc_job (ws ! w) \<Longrightarrow>
   unique_holder ws' = unique_holder ws"
  using holds_cong[of ws' ws] by (simp add: unique_holder_def)

lemma held_replicate [simp]: "held (replicate n AtWait) = {}"
  by (auto simp: held_def holds_def)

lemma unique_replicate [simp]: "unique_holder (replicate n AtWait)"
  by (auto simp: unique_holder_def holds_def)

lemma boot_struct: "inv_struct n (boot n now)"
  by (simp add: inv_struct_def boot_def new_scheduler_def)

lemma inv_structD:
  assumes "inv_struct n sys"
  shows "length (workers sys) = n" "length (core_availability (sched sys)) = n"
    "num_cores (sched sys) = n" "distinct (job_queue (sched sys))"
    "\<And>p. p \<in> set (job_queue (sched sys)) \<Longrightarrow>
       p < length (all_jobs (sched sys)) \<and> status (all_jobs (sched sys) ! p) = PENDING"
    "\<And>p. p \<in> held (workers sys) \<Longrightarrow>
       p < length (all_jobs (sched sys)) \<and> p \<notin> set (job_queue (sched sys)) \<and>
       status (all_jobs (sched sys) ! p) \<noteq> WAITING_DEPS"
    "unique_holder (workers sys)" "set (active_jobs (sched sys)) \<subseteq> held (workers sys)"
    "distinct (active_jobs (sched sys))"
    "\<And>p. shell_job (shell sys) = Some p \<Longrightarrow> p \<in> held (workers sys)"
  using assms unfolding inv_struct_def Let_def by auto

lemma struct_frame:
  assumes inv: "inv_struct n sys"
    and len: "length (workers sys') = length (workers sys)"
    and pcs: "\<forall>w < length (workers sys). pc_job (workers sys' ! w) = pc_job (workers sys ! w)"
    and Q: "job_queue (sched sys') = job_queue (sched sys)"
    and A: "active_jobs (sched sys') = active_jobs (sched sys) \<or> active_jobs (sched sys') = []"
    and C: "length (core_availability (sched sys')) = length (core_availability (sched sys))"
    and N: "num_cores (sched sys') = num_cores (sched sys)"
    and L: "length (all_jobs (sched sys')) = length (all_jobs (sched sys))"
    and stq: "\<And>p. p < length (all_jobs (sched sys)) \<Longrightarrow>
        status (all_jobs (sched sys') ! p) = status (all_jobs (sched sys) ! p) \<or>
        (p \<in> held (workers sys) \<and> status (all_jobs (sched sys') ! p) \<noteq> WAITING_DEPS)"
    and sh: "\<And>p. shell_job (shell sys') = Some p \<Longrightarrow>
        shell_job (shell sys) = Some p \<or> p \<in> set (active_jobs (sched sys))"
  shows "inv_struct n sys'"
proof -
  let ?s = "sched sys" and ?s' = "sched sys'" and ?ws = "workers sys" and ?ws' = "workers sys'"
  have h: "held ?ws' = held ?ws" and u: "unique_holder ?ws' = unique_holder ?ws"
    using held_cong[OF len pcs] unique_cong[OF len pcs] by auto
  note i = inv_structD[OF inv]
  have 1: "p < length (all_jobs ?s') \<and> status (all_jobs ?s' ! p) = PENDING"
    if "p \<in> set (job_queue ?s')" for p
    using that i(5)[of p] i(6)[of p] stq[of p] Q L by auto
  have 2: "p < length (all_jobs ?s') \<and> p \<notin> set (job_queue ?s') \<and>
           status (all_jobs ?s' ! p) \<noteq> WAITING_DEPS"
    if "p \<in> held ?ws'" for p
    using that i(6)[of p] stq[of p] Q L h by auto
  have 3: "set (active_jobs ?s') \<subseteq> held ?ws'" "distinct (active_jobs ?s')"
    using A i(8,9) h by auto
  have 4: "p \<in> held ?ws'" if "shell_job (shell sys') = Some p" for p
    using sh[OF that] i(8) i(10)[of p] h by auto
  show ?thesis
    unfolding inv_struct_def Let_def
    using i(1-4,7) len h u Q C N 1 2 3 4 by auto
qed

lemma quiet_struct:
  assumes "inv_struct n sys" "quiet_step sys sys'"
  shows "inv_struct n sys'"
proof -
  let ?s = "sched sys" and ?s' = "sched sys'" and ?ws = "workers sys" and ?ws' = "workers sys'"
  from assms(2) obtain q j' where
    len: "length ?ws' = length ?ws" and
    pcs: "\<forall>w < length ?ws. pc_job (?ws' ! w) = pc_job (?ws ! w)" and
    t: "touch ?s q j' ?s'" and
    st: "status j' = status (all_jobs ?s ! q) \<or> (q \<in> held ?ws \<and> status j' \<noteq> WAITING_DEPS)" and
    sh: "\<forall>p. shell_job (shell sys') = Some p \<longrightarrow>
           shell_job (shell sys) = Some p \<or> p \<in> set (active_jobs ?s)"
    unfolding quiet_step_def Let_def by blast
  have stq: "status (all_jobs ?s' ! p) = status (all_jobs ?s ! p) \<or>
             (p \<in> held ?ws \<and> status (all_jobs ?s' ! p) \<noteq> WAITING_DEPS)"
    if "p < length (all_jobs ?s)" for p
    using t st that by (cases "p = q") (auto simp: touch_def)
  show ?thesis
    using t sh by (intro struct_frame[OF assms(1) len pcs _ _ _ _ _ stq]) (auto simp: touch_def)
qed

lemma touch_nth:
  "touch s q j' s' \<Longrightarrow> p < length (all_jobs s) \<Longrightarrow>
   all_jobs s' ! p = (if p = q then j' else all_jobs s ! p)"
  by (auto simp: touch_def)

lemma touch_length: "touch s q j' s' \<Longrightarrow> length (all_jobs s') = length (all_jobs s)"
  by (auto simp: touch_def)

lemma touch_core:
  "touch s q j' s' \<Longrightarrow> assigned_core_id j' = assigned_core_id (all_jobs s ! q) \<Longrightarrow>
   assigned_core_id (all_jobs s' ! p) = assigned_core_id (all_jobs s ! p)"
  by (cases "q < length (all_jobs s)"; cases "p = q") (auto simp: touch_def list_update_beyond)

lemma boot_cores: "inv_cores n (boot n now)"
  by (simp add: inv_cores_def boot_def new_scheduler_def core_of_def)

lemma boot_status: "inv_status n (boot n now)"
  by (simp add: inv_status_def boot_def new_scheduler_def)

lemma boot_fresh: "inv_fresh (boot n now)"
  by (simp add: inv_fresh_def boot_def new_scheduler_def)

lemma quiet_cores:
  assumes "inv_cores n sys" "quiet_step sys sys'"
  shows "inv_cores n sys'"
proof -
  let ?s = "sched sys" and ?s' = "sched sys'" and ?ws = "workers sys" and ?ws' = "workers sys'"
  from assms(2) obtain q j' where
    len: "length ?ws' = length ?ws" and
    pcs: "\<And>w. w < length ?ws \<Longrightarrow> pc_job (?ws' ! w) = pc_job (?ws ! w)" and
    hc: "\<And>w. w < length ?ws \<Longrightarrow> has_core (?ws' ! w) = has_core (?ws ! w)" and
    t: "touch ?s q j' ?s'" and
    co: "assigned_core_id j' = assigned_core_id (all_jobs ?s ! q)"
    unfolding quiet_step_def Let_def by blast
  have "core_of ?s' ?ws' w = core_of ?s ?ws w" for w
    using len pcs[of w] hc[of w] touch_core[OF t co]
    by (cases "w < length ?ws") (simp_all add: core_of_def)
  moreover have "core_availability ?s' = core_availability ?s"
    using t by (simp add: touch_def)
  ultimately show ?thesis
    using assms(1) by (simp add: inv_cores_def Let_def)
qed

lemma quiet_status_of:
  assumes "quiet_step sys sys'" "p < length (all_jobs (sched sys))"
  shows "status (all_jobs (sched sys') ! p) = status (all_jobs (sched sys) ! p) \<or>
         (p \<in> held (workers sys) \<and> status (all_jobs (sched sys') ! p) \<noteq> WAITING_DEPS \<and>
           (status (all_jobs (sched sys') ! p) = RUNNING \<or> status (all_jobs (sched sys') ! p) = SUSPENDED \<longrightarrow>
              status (all_jobs (sched sys) ! p) = RUNNING \<or> status (all_jobs (sched sys) ! p) = SUSPENDED \<or>
              tested (shell sys) = Some p \<or>
              (\<exists>w. holds (workers sys') w p \<and> started (workers sys' ! w))))"
proof -
  from assms(1) obtain q j' where
    t: "touch (sched sys) q j' (sched sys')" and
    st: "status j' = status (all_jobs (sched sys) ! q) \<or>
          (q \<in> held (workers sys) \<and> status j' \<noteq> WAITING_DEPS \<and>
           (status j' = RUNNING \<or> status j' = SUSPENDED \<longrightarrow>
              status (all_jobs (sched sys) ! q) = RUNNING \<or> status (all_jobs (sched sys) ! q) = SUSPENDED \<or>
              tested (shell sys) = Some q \<or>
              (\<exists>w. holds (workers sys') w q \<and> started (workers sys' ! w))))"
    unfolding quiet_step_def Let_def by blast
  show ?thesis
  proof (cases "p = q")
    case True
    then have "all_jobs (sched sys') ! p = j'" using touch_nth[OF t assms(2)] by simp
    with st True show ?thesis by simp
  next
    case False
    then show ?thesis using touch_nth[OF t assms(2)] by simp
  qed
qed

lemma placed_kept:
  assumes "placed n sys p"
    and "\<And>w. holds (workers sys) w p \<Longrightarrow> started (workers sys ! w) \<Longrightarrow>
           (holds (workers sys') w p \<and> started (workers sys' ! w)) \<or>
           (0 \<le> assigned_core_id (all_jobs (sched sys') ! p) \<and>
            assigned_core_id (all_jobs (sched sys') ! p) < int n)"
    and "0 \<le> assigned_core_id (all_jobs (sched sys) ! p) \<Longrightarrow>
         assigned_core_id (all_jobs (sched sys') ! p) = assigned_core_id (all_jobs (sched sys) ! p)"
  shows "placed n sys' p"
  using assms unfolding placed_def by metis

lemma inv_statusD:
  assumes "inv_status n sys" "p < length (all_jobs (sched sys))"
    and "status (all_jobs (sched sys) ! p) = RUNNING \<or> status (all_jobs (sched sys) ! p) = SUSPENDED
         \<or> tested (shell sys) = Some p"
  shows "placed n sys p"
  using assms unfolding inv_status_def Let_def by blast

lemma quiet_placed:
  assumes "quiet_step sys sys'" "placed n sys p"
  shows "placed n sys' p"
proof -
  let ?s = "sched sys" and ?s' = "sched sys'" and ?ws = "workers sys" and ?ws' = "workers sys'"
  from assms(1) obtain q j' where
    len: "length ?ws' = length ?ws" and
    pcs: "\<forall>w < length ?ws. pc_job (?ws' ! w) = pc_job (?ws ! w)" and
    dr: "\<And>w. w < length ?ws \<Longrightarrow> started (?ws ! w) \<Longrightarrow> started (?ws' ! w)" and
    t: "touch ?s q j' ?s'" and
    co: "assigned_core_id j' = assigned_core_id (all_jobs ?s ! q)"
    unfolding quiet_step_def Let_def by blast
  show ?thesis
  proof (rule placed_kept[OF assms(2)])
    fix w assume "holds ?ws w p" "started (?ws ! w)"
    then have "holds ?ws' w p \<and> started (?ws' ! w)"
      using holds_cong[OF len pcs] dr[of w] by (auto simp: holds_def)
    then show "(holds ?ws' w p \<and> started (?ws' ! w)) \<or>
           (0 \<le> assigned_core_id (all_jobs ?s' ! p) \<and> assigned_core_id (all_jobs ?s' ! p) < int n)"
      by simp
  next
    show "assigned_core_id (all_jobs ?s' ! p) = assigned_core_id (all_jobs ?s ! p)"
      using touch_core[OF t co] by simp
  qed
qed

lemma quiet_status:
  assumes "inv_status n sys" "quiet_step sys sys'"
  shows "inv_status n sys'"
proof -
  let ?s = "sched sys" and ?s' = "sched sys'" and ?ws = "workers sys" and ?ws' = "workers sys'"
  from assms(2) have
    te: "\<And>p. tested (shell sys') = Some p \<Longrightarrow> tested (shell sys) = Some p \<or>
           status (all_jobs ?s ! p) = RUNNING \<or> status (all_jobs ?s ! p) = SUSPENDED"
    unfolding quiet_step_def Let_def by blast
  have L: "length (all_jobs ?s') = length (all_jobs ?s)"
    using assms(2) unfolding quiet_step_def Let_def by (auto simp: touch_def)
  show ?thesis
    unfolding inv_status_def Let_def
  proof (intro allI impI)
    fix p assume p: "p < length (all_jobs ?s')"
      and rs: "status (all_jobs ?s' ! p) = RUNNING \<or> status (all_jobs ?s' ! p) = SUSPENDED \<or>
               tested (shell sys') = Some p"
    from p L have p': "p < length (all_jobs ?s)" by simp
    have new: "placed n sys' p" if "\<exists>w. holds ?ws' w p \<and> started (?ws' ! w)"
      using that by (simp add: placed_def)
    from quiet_status_of[OF assms(2) p'] rs te[of p]
    have "status (all_jobs ?s ! p) = RUNNING \<or> status (all_jobs ?s ! p) = SUSPENDED \<or>
          tested (shell sys) = Some p \<or> (\<exists>w. holds ?ws' w p \<and> started (?ws' ! w))"
      by auto
    then show "placed n sys' p"
      using quiet_placed[OF assms(2) inv_statusD[OF assms(1) p']] new by blast
  qed
qed

lemma quiet_waiting:
  assumes "inv_struct n sys" "quiet_step sys sys'" "p < length (all_jobs (sched sys))"
  shows "(status (all_jobs (sched sys') ! p) = WAITING_DEPS) = (status (all_jobs (sched sys) ! p) = WAITING_DEPS)"
  using quiet_status_of[OF assms(2,3)] assms(1,3)
  by (auto simp: inv_struct_def Let_def)

lemma quiet_fresh:
  assumes "inv_struct n sys" "inv_fresh sys" "quiet_step sys sys'"
  shows "inv_fresh sys'"
proof -
  let ?s = "sched sys" and ?s' = "sched sys'" and ?ws = "workers sys" and ?ws' = "workers sys'"
  from assms(3) obtain q j' where
    len: "length ?ws' = length ?ws" and
    pcs: "\<forall>w < length ?ws. pc_job (?ws' ! w) = pc_job (?ws ! w)" and
    ea: "\<And>w. w < length ?ws \<Longrightarrow> early (?ws' ! w) \<Longrightarrow> early (?ws ! w)" and
    t: "touch ?s q j' ?s'" and
    co: "assigned_core_id j' = assigned_core_id (all_jobs ?s ! q)"
    unfolding quiet_step_def Let_def by blast
  have L: "length (all_jobs ?s') = length (all_jobs ?s)" and Q: "job_queue ?s' = job_queue ?s"
    using t by (auto simp: touch_def)
  show ?thesis
    unfolding inv_fresh_def Let_def
  proof (intro allI impI)
    fix p assume p: "p < length (all_jobs ?s')"
      and c: "p \<in> set (job_queue ?s') \<or> status (all_jobs ?s' ! p) = WAITING_DEPS \<or>
              (\<exists>w. holds ?ws' w p \<and> early (?ws' ! w))"
    from p L have p': "p < length (all_jobs ?s)" by simp
    have "p \<in> set (job_queue ?s) \<or> status (all_jobs ?s ! p) = WAITING_DEPS \<or>
              (\<exists>w. holds ?ws w p \<and> early (?ws ! w))"
      using c Q quiet_waiting[OF assms(1,3) p'] holds_cong[OF len pcs] ea
      by (auto simp: holds_def)
    with assms(2) p' have "assigned_core_id (all_jobs ?s ! p) = - 1"
      unfolding inv_fresh_def Let_def by blast
    then show "assigned_core_id (all_jobs ?s' ! p) = - 1"
      using touch_core[OF t co] by simp
  qed
qed

lemma touch_refl [simp]: "touch s q (all_jobs s ! q) s"
  by (simp add: touch_def)

lemma tested_shell_job: "tested pc = Some p \<Longrightarrow> shell_job pc = Some p"
  by (cases pc) auto

lemma quiet_main:
  assumes "workers sys' = workers sys" "shell_job (shell sys') = None"
    and "touch (sched sys) q j' (sched sys')"
    and "assigned_core_id j' = assigned_core_id (all_jobs (sched sys) ! q)"
    and "status j' = status (all_jobs (sched sys) ! q) \<or>
         (q \<in> held (workers sys) \<and> status j' \<noteq> WAITING_DEPS \<and>
          (status j' = RUNNING \<or> status j' = SUSPENDED \<longrightarrow>
             status (all_jobs (sched sys) ! q) = RUNNING \<or> status (all_jobs (sched sys) ! q) = SUSPENDED \<or>
             tested (shell sys) = Some q))"
  shows "quiet_step sys sys'"
proof -
  have "tested (shell sys') = Some p \<Longrightarrow> False" for p
    using tested_shell_job[of "shell sys'" p] assms(2) by simp
  then show ?thesis
    unfolding quiet_step_def Let_def using assms by auto
qed

lemma quiet_same:
  assumes "workers sys' = workers sys" "shell_job (shell sys') = None"
    and "touch (sched sys) 0 (all_jobs (sched sys) ! 0) (sched sys')"
  shows "quiet_step sys sys'"
  using assms by (intro quiet_main[where q=0 and j'="all_jobs (sched sys) ! 0"]) auto

lemma quiet_worker:
  assumes "w < length (workers sys)" "workers sys' = (workers sys)[w := pc']"
    and "pc_job pc' = pc_job (workers sys ! w)" "has_core pc' = has_core (workers sys ! w)"
    and "started (workers sys ! w) \<longrightarrow> started pc'" "early pc' \<longrightarrow> early (workers sys ! w)"
    and "touch (sched sys) q j' (sched sys')"
    and "assigned_core_id j' = assigned_core_id (all_jobs (sched sys) ! q)"
    and "status j' = status (all_jobs (sched sys) ! q) \<or>
         (pc_job pc' = Some q \<and> status j' \<noteq> WAITING_DEPS \<and>
          (status j' = RUNNING \<or> status j' = SUSPENDED \<longrightarrow>
             status (all_jobs (sched sys) ! q) = RUNNING \<or> status (all_jobs (sched sys) ! q) = SUSPENDED \<or>
             started pc'))"
    and "shell sys' = shell sys"
  shows "quiet_step sys sys'"
proof -
  have pcs: "\<forall>v < length (workers sys). pc_job (workers sys' ! v) = pc_job (workers sys ! v) \<and>
        has_core (workers sys' ! v) = has_core (workers sys ! v) \<and>
        (started (workers sys ! v) \<longrightarrow> started (workers sys' ! v)) \<and>
        (early (workers sys' ! v) \<longrightarrow> early (workers sys ! v))"
    using assms(1-6) by (auto simp: nth_list_update)
  have hq: "pc_job pc' = Some q \<Longrightarrow> q \<in> held (workers sys) \<and> holds (workers sys') w q"
    using assms(1-3) by (auto simp: held_def holds_def)
  have "status j' = status (all_jobs (sched sys) ! q) \<or>
          (q \<in> held (workers sys) \<and> status j' \<noteq> WAITING_DEPS \<and>
           (status j' = RUNNING \<or> status j' = SUSPENDED \<longrightarrow>
              status (all_jobs (sched sys) ! q) = RUNNING \<or> status (all_jobs (sched sys) ! q) = SUSPENDED \<or>
              (\<exists>v. holds (workers sys') v q \<and> started (workers sys' ! v))))"
    using assms(9) hq assms(1,2) by (auto simp: nth_list_update)
  then show ?thesis
    unfolding quiet_step_def Let_def using assms(2,7,8,10) pcs by auto
qed

lemma worker_atD: "worker_at w sys = Some pc \<Longrightarrow> w < length (workers sys) \<and> workers sys ! w = pc"
  by (auto simp: worker_at_def split: if_splits)

lemma quiet_kill:
  assumes "inv_struct n sys" "exec (Kill jid) sys = Some sys'"
  shows "quiet_step sys sys'"
proof (cases "find_active jid (sched sys)")
  case None
  with assms(2) show ?thesis
    by (auto simp: idle_do_def kill_job_def split: if_splits intro!: quiet_same)
next
  case (Some q)
  then have "q \<in> held (workers sys)"
    using assms(1) by (auto simp: find_active_def inv_struct_def Let_def dest!: find_in_set)
  with Some assms(2) show ?thesis
    by (auto simp: idle_do_def kill_job_def upd_job_def touch_def split: if_splits
        intro!: quiet_main[where q=q and j'="(all_jobs (sched sys) ! q)\<lparr>status := KILLED\<rparr>"])
qed

lemma quiet_suspend:
  assumes "inv_struct n sys" "exec (Suspend jid) sys = Some sys'"
  shows "quiet_step sys sys'"
proof (cases "find_active jid (sched sys)")
  case None
  with assms(2) show ?thesis
    by (auto simp: idle_do_def suspend_job_def split: if_splits intro!: quiet_same)
next
  case (Some q)
  then have h: "q \<in> held (workers sys)"
    using assms(1) by (auto simp: find_active_def inv_struct_def Let_def dest!: find_in_set)
  show ?thesis
  proof (cases "status (all_jobs (sched sys) ! q) = RUNNING")
    case True
    with h Some assms(2) show ?thesis
      by (auto simp: idle_do_def suspend_job_def upd_job_def touch_def split: if_splits
          intro!: quiet_main[where q=q and j'="(all_jobs (sched sys) ! q)\<lparr>status := SUSPENDED\<rparr>"])
  next
    case False
    with Some assms(2) show ?thesis
      by (auto simp: idle_do_def suspend_job_def split: if_splits intro!: quiet_same)
  qed
qed

lemma quiet_resume:
  assumes "inv_struct n sys" "exec (Resume jid) sys = Some sys'"
  shows "quiet_step sys sys'"
proof (cases "find_active jid (sched sys)")
  case None
  with assms(2) show ?thesis
    by (auto simp: idle_do_def resume_job_def split: if_splits intro!: quiet_same)
next
  case (Some q)
  then have h: "q \<in> held (workers sys)"
    using assms(1) by (auto simp: find_active_def inv_struct_def Let_def dest!: find_in_set)
  show ?thesis
  proof (cases "status (all_jobs (sched sys) ! q) = SUSPENDED")
    case True
    with h Some assms(2) show ?thesis
      by (auto simp: idle_do_def resume_job_def upd_job_def touch_def split: if_splits
          intro!: quiet_main[where q=q and j'="(all_jobs (sched sys) ! q)\<lparr>status := RUNNING\<rparr>"])
  next
    case False
    with Some assms(2) show ?thesis
      by (auto simp: idle_do_def resume_job_def split: if_splits intro!: quiet_same)
  qed
qed

lemma quiet_change_priority:
  assumes "exec (ChangePriority jid pr) sys = Some sys'"
  shows "quiet_step sys sys'"
proof (cases "find_job jid (sched sys)")
  case None
  with assms show ?thesis
    by (auto simp: idle_do_def change_job_priority_def split: if_splits intro!: quiet_same)
next
  case (Some q)
  show ?thesis
  proof (cases "status (all_jobs (sched sys) ! q) = PENDING")
    case True
    with Some assms show ?thesis
      by (auto simp: idle_do_def change_job_priority_def upd_job_def touch_def split: if_splits
          intro!: quiet_main[where q=q and j'="(all_jobs (sched sys) ! q)\<lparr>priority := pr\<rparr>"])
  next
    case False
    with Some assms show ?thesis
      by (auto simp: idle_do_def change_job_priority_def split: if_splits intro!: quiet_same)
  qed
qed

lemma quiet_settings:
  assumes "exec e sys = Some sys'"
    and "e = SetPolicy pol \<or> e = SetMaxJobs m \<or> e = EnableAffinity b \<or> e = StopBegin \<or> e = StopEnd
         \<or> e = SubmitArray tmpl sz pr"
  shows "quiet_step sys sys'"
  using assms
  by (auto simp: idle_do_def touch_def split: if_splits intro!: quiet_same)

lemma quiet_script_fields:
  assumes "exec ScriptFields sys = Some sys'"
  shows "quiet_step sys sys'"
proof (cases "shell sys")
  case (ScriptTail q v)
  let ?f = "\<lambda>j. (if v_job_name v \<noteq> [] then j\<lparr>job_name := v_job_name v\<rparr> else j)
               \<lparr>limits := \<lparr>max_memory_mb = v_memory_limit v, max_runtime = v_runtime_limit v,
                           max_cpu_cores = v_cores v\<rparr>,
                type := BATCH\<rparr>"
  have f: "assigned_core_id (?f j) = assigned_core_id j" "status (?f j) = status j" for j
    by simp_all
  have t: "touch (sched sys) q (?f (all_jobs (sched sys) ! q)) (sched sys')"
    and w: "workers sys' = workers sys" and sh: "shell_job (shell sys') = None"
    using ScriptTail assms by (auto simp add: parse_job_script_fields_def upd_job_def touch_def)
  show ?thesis
    by (rule quiet_main[where q=q and j'="?f (all_jobs (sched sys) ! q)", OF w sh t f(1)])
       (use f(2) in blast)
qed (use assms in auto)

lemma quiet_array_fields:
  assumes "exec ArrayFields sys = Some sys'"
  shows "quiet_step sys sys'"
proof (cases "shell sys")
  case (ArrayTail tmpl sz pr aid i q)
  with assms show ?thesis
    by (auto simp: array_fields_def upd_job_def touch_def
        intro!: quiet_main[where q=q and
          j'="(all_jobs (sched sys) ! q)\<lparr>array_job_id := aid, array_task_id := i, type := ARRAY_JOB\<rparr>"])
qed (use assms in auto)

lemma quiet_mark:
  assumes "exec (Mark w now) sys = Some sys'"
  shows "quiet_step sys sys'"
proof -
  from assms obtain q where wa: "worker_at w sys = Some (Holding q)"
    and sys': "sys' = move w (Started q) (execute_job_mark w now q (sched sys)) sys"
    by (auto split: option.splits worker_pc.splits)
  from worker_atD[OF wa] have w: "w < length (workers sys)" "workers sys ! w = Holding q" by auto
  show ?thesis
    by (rule quiet_worker[where w=w and pc'="Started q" and q=q and
          j'="(all_jobs (sched sys) ! q)\<lparr>status := RUNNING, thread_id := Some w, start_time := now\<rparr>"])
       (use w sys' in \<open>auto simp: move_def execute_job_mark_def upd_job_def touch_def\<close>)
qed

lemma quiet_fork:
  assumes "exec (Fork w r1 r2 pid) sys = Some sys'"
  shows "quiet_step sys sys'"
proof -
  let ?pc = "if pid > 0 then InWaitpid else Ending"
  from assms obtain q where wa: "worker_at w sys = Some (HasCore q)"
    and sys': "sys' = move w (?pc q) (execute_job_fork r1 r2 pid q (sched sys)) sys"
    by (auto split: option.splits worker_pc.splits if_splits)
  from worker_atD[OF wa] have w: "w < length (workers sys)" "workers sys ! w = HasCore q" by auto
  let ?j = "(simulate_memory_usage (simulate_cpu_usage r1 r2 (all_jobs (sched sys) ! q)))"
  let ?j' = "if pid > 0 then ?j\<lparr>process_id := pid\<rparr> else ?j\<lparr>status := FAILED, exit_code := - 1\<rparr>"
  show ?thesis
  proof (cases "q < length (all_jobs (sched sys))")
    case True
    show ?thesis
      by (rule quiet_worker[where w=w and pc'="?pc q" and q=q and j'="?j'"])
         (use w sys' True in \<open>auto simp: move_def execute_job_fork_def upd_job_def touch_def
            Let_def simulate_memory_usage_def simulate_cpu_usage_def\<close>)
  next
    case False
    show ?thesis
      by (rule quiet_worker[where w=w and pc'="?pc q" and q=q and j'="all_jobs (sched sys) ! q"])
         (use w sys' False in \<open>auto simp: move_def execute_job_fork_def upd_job_def touch_def
            Let_def list_update_beyond\<close>)
  qed
qed

lemma quiet_result:
  assumes "exec (Result w ws now) sys = Some sys'"
  shows "quiet_step sys sys'"
proof -
  from assms obtain q where wa: "worker_at w sys = Some (InWaitpid q)"
    and sys': "sys' = move w (Ending q) (execute_job_result ws now q (sched sys)) sys"
    by (auto split: option.splits worker_pc.splits if_splits)
  from worker_atD[OF wa] have w: "w < length (workers sys)" "workers sys ! w = InWaitpid q" by auto
  let ?j = "all_jobs (sched sys) ! q"
  let ?j1 = "?j\<lparr>end_time := now, actual_runtime := to_milliseconds (now - start_time ?j)\<rparr>"
  let ?j' = "case ws of
               Exited code \<Rightarrow> ?j1\<lparr>exit_code := code, status := (if code = 0 then COMPLETED else FAILED)\<rparr>
             | Abnormal \<Rightarrow> ?j1\<lparr>status := FAILED, exit_code := - 1\<rparr>"
  show ?thesis
  proof (cases "q < length (all_jobs (sched sys))")
    case True
    show ?thesis
      by (rule quiet_worker[where w=w and pc'="Ending q" and q=q and j'="?j'"])
         (use w sys' True in \<open>auto simp: move_def execute_job_result_def upd_job_def touch_def
            Let_def split: wait_status.splits\<close>)
  next
    case False
    show ?thesis
      by (rule quiet_worker[where w=w and pc'="Ending q" and q=q and j'="all_jobs (sched sys) ! q"])
         (use w sys' False in \<open>auto simp: move_def execute_job_result_def upd_job_def touch_def
            Let_def list_update_beyond split: wait_status.splits\<close>)
  qed
qed

lemma quiet_test:
  assumes "inv_struct n sys" "exec e sys = Some sys'"
    and "e = KillFind jid \<or> e = SuspendTest jid \<or> e = ResumeTest jid \<or> e = PriorityTest jid pr"
  shows "quiet_step sys sys'"
proof -
  have t: "touch (sched sys) 0 (all_jobs (sched sys) ! 0) (sched sys)" by simp
  have fa: "find_active jid (sched sys) = Some p \<Longrightarrow> p \<in> set (active_jobs (sched sys))" for p
    by (auto simp: find_active_def dest!: find_in_set)
  have w: "workers sys' = workers sys" "sched sys' = sched sys"
    using assms(2,3) by (auto simp: idle_test_def split: if_splits option.splits)
  have sj: "shell_job (shell sys') = Some p \<Longrightarrow> p \<in> set (active_jobs (sched sys))" for p
    using assms(2,3) fa
    by (auto simp: idle_test_def kill_job_find_def suspend_job_test_def resume_job_test_def
        split: if_splits option.splits)
  have te: "tested (shell sys') = Some p \<Longrightarrow>
      status (all_jobs (sched sys) ! p) = RUNNING \<or> status (all_jobs (sched sys) ! p) = SUSPENDED" for p
    using assms(2,3)
    by (auto simp: idle_test_def kill_job_find_def suspend_job_test_def resume_job_test_def
        split: if_splits option.splits)
  show ?thesis
    unfolding quiet_step_def Let_def using w sj te t
    by (intro conjI exI[where x=0] exI[where x="all_jobs (sched sys) ! 0"]) auto
qed

lemma quiet_write:
  assumes "inv_struct n sys" "exec ControlWrite sys = Some sys'"
  shows "quiet_step sys sys'"
proof -
  note st = inv_structD[OF assms(1)]
  show ?thesis
  proof (cases "shell sys")
    case (Killing q)
    with st(10)[of q] have "q \<in> held (workers sys)" by simp
    with Killing assms(2) show ?thesis
      by (auto simp: kill_job_write_def upd_job_def touch_def
          intro!: quiet_main[where q=q and j'="(all_jobs (sched sys) ! q)\<lparr>status := KILLED\<rparr>"])
  next
    case (Suspending q)
    with st(10)[of q] have "q \<in> held (workers sys)" by simp
    with Suspending assms(2) show ?thesis
      by (auto simp: suspend_job_write_def upd_job_def touch_def
          intro!: quiet_main[where q=q and j'="(all_jobs (sched sys) ! q)\<lparr>status := SUSPENDED\<rparr>"])
  next
    case (Resuming q)
    with st(10)[of q] have "q \<in> held (workers sys)" by simp
    with Resuming assms(2) show ?thesis
      by (auto simp: resume_job_write_def upd_job_def touch_def
          intro!: quiet_main[where q=q and j'="(all_jobs (sched sys) ! q)\<lparr>status := RUNNING\<rparr>"])
  next
    case (Prioritising q pr)
    with assms(2) show ?thesis
      by (auto simp: change_job_priority_write_def upd_job_def touch_def
          intro!: quiet_main[where q=q and j'="(all_jobs (sched sys) ! q)\<lparr>priority := pr\<rparr>"])
  qed (use assms(2) in auto)
qed

lemma quiet_leave:
  assumes "exec (Leave w) sys = Some sys'"
  shows "quiet_step sys sys'"
proof -
  from assms have wa: "worker_at w sys = Some AtWait"
    and sys': "sys' = move w ThreadExit (sched sys) sys"
    by (auto split: if_splits)
  from worker_atD[OF wa] have w: "w < length (workers sys)" "workers sys ! w = AtWait" by auto
  show ?thesis
    by (rule quiet_worker[where w=w and pc'=ThreadExit and q=0 and j'="all_jobs (sched sys) ! 0"])
       (use w sys' in \<open>auto simp: move_def\<close>)
qed

lemma submit_job_appended: "appended s (snd (submit_job cmd p now s))"
  unfolding appended_def
  by (rule exI[where x="new_job (next_job_id s) cmd p now"])
     (simp add: submit_job_def Let_def queue_push_def count_submitted_def new_job_def)

lemma submit_job_with_deps_appended: "appended s (snd (submit_job_with_deps cmd deps p now s))"
proof -
  let ?job = "(new_job (next_job_id s) cmd p now)\<lparr>dependencies := foldl set_insert [] deps\<rparr>"
  show ?thesis
  proof (cases "dependencies_satisfied ?job (all_jobs s)")
    case True
    then show ?thesis
      unfolding appended_def
      by (intro exI[where x="?job"])
         (simp add: submit_job_with_deps_def Let_def queue_push_def count_submitted_def new_job_def)
  next
    case False
    then show ?thesis
      unfolding appended_def
      by (intro exI[where x="?job\<lparr>status := WAITING_DEPS\<rparr>"])
         (simp add: submit_job_with_deps_def Let_def queue_push_def count_submitted_def new_job_def)
  qed
qed

lemma parse_job_script_submit_appended:
  assumes "parse_job_script_submit path file now s = Inr (job, v, s')"
  shows "appended s s'"
proof -
  from assms obtain body where f: "file = Some body"
    by (cases "file") (auto simp: parse_job_script_submit_def)
  from assms f obtain v0 where pl: "parse_lines (getlines newline body) initial_vars = Inr v0"
    by (cases "parse_lines (getlines newline body) initial_vars")
       (auto simp: parse_job_script_submit_def)
  from assms f pl have ne: "v_command v0 \<noteq> []"
    by (auto simp: parse_job_script_submit_def split: if_splits)
  show ?thesis
  proof (cases "v_dependencies v0 \<noteq> []")
    case True
    with assms f pl ne have
      "s' = snd (submit_job_with_deps (v_command v0) (v_dependencies v0) (v_priority v0) now s)"
      by (simp add: parse_job_script_submit_def split: prod.splits)
    then show ?thesis by (simp add: submit_job_with_deps_appended)
  next
    case False
    with assms f pl ne have
      "s' = snd (submit_job (v_command v0) (v_priority v0) now s)"
      by (simp add: parse_job_script_submit_def split: prod.splits)
    then show ?thesis by (simp add: submit_job_appended)
  qed
qed

lemma submit_events:
  assumes "exec e sys = Some sys'"
    and "e = Submit cmd p now \<or> e = SubmitWithDeps cmd deps p now \<or> e = SubmitScript path file now
         \<or> e = ArrayNext now"
  shows "append_step sys sys' \<or> quiet_step sys sys'"
proof -
  consider (a) "e = Submit cmd p now" | (b) "e = SubmitWithDeps cmd deps p now"
    | (c) "e = SubmitScript path file now" | (d) "e = ArrayNext now"
    using assms(2) by blast
  then show ?thesis
  proof cases
    case a
    with assms(1) show ?thesis
      by (auto simp: idle_do_def append_step_def submit_job_appended split: if_splits)
  next
    case b
    with assms(1) show ?thesis
      by (auto simp: idle_do_def append_step_def submit_job_with_deps_appended split: if_splits)
  next
    case c
    show ?thesis
    proof (cases "parse_job_script_submit path file now (sched sys)")
      case (Inl err)
      with c assms(1) have "sys' = sys" "shell sys = MainIdle" by (auto split: if_splits)
      then show ?thesis by (auto intro!: quiet_same)
    next
      case (Inr r)
      then obtain job v s' where r: "r = (job, v, s')" by (cases r) auto
      with Inr have "appended (sched sys) s'"
        by (auto intro: parse_job_script_submit_appended)
      with c assms(1) Inr r show ?thesis
        by (auto simp: append_step_def split: if_splits)
    qed
  next
    case d
    show ?thesis
    proof (cases "shell sys")
      case (ArrayLoop tmpl sz pr aid i)
      show ?thesis
      proof (cases "i < sz")
        case True
        obtain job s' where sj: "submit_job (array_command tmpl i) pr now (sched sys) = (job, s')"
          by force
        then have "appended (sched sys) s'"
          using submit_job_appended[of "sched sys" "array_command tmpl i" pr now] by simp
        with d assms(1) ArrayLoop True sj show ?thesis
          by (auto simp: append_step_def)
      next
        case False
        with d assms(1) ArrayLoop show ?thesis
          by (auto intro!: quiet_same)
      qed
    qed (use d assms(1) in auto)
  qed
qed

lemma append_struct:
  assumes "inv_struct n sys" "append_step sys sys'"
  shows "inv_struct n sys'"
proof -
  let ?s = "sched sys" and ?s' = "sched sys'" and ?ws = "workers sys"
  from assms(2) obtain j where
    ws: "workers sys' = ?ws" and sh: "shell_job (shell sys') = None" and
    aj: "all_jobs ?s' = all_jobs ?s @ [j]" and
    q: "(status j = PENDING \<and>
          set (job_queue ?s') = insert (length (all_jobs ?s)) (set (job_queue ?s)) \<and>
          (distinct (job_queue ?s') \<longleftrightarrow>
             length (all_jobs ?s) \<notin> set (job_queue ?s) \<and> distinct (job_queue ?s)))
         \<or> (status j = WAITING_DEPS \<and> job_queue ?s' = job_queue ?s)" and
    rest: "active_jobs ?s' = active_jobs ?s" "core_availability ?s' = core_availability ?s"
      "num_cores ?s' = num_cores ?s"
    unfolding append_step_def appended_def by blast
  note i = inv_structD[OF assms(1)]
  have fresh: "length (all_jobs ?s) \<notin> set (job_queue ?s)" "length (all_jobs ?s) \<notin> held ?ws"
    using i(5,6) by force+
  have 0: "distinct (job_queue ?s')" using q i(4) fresh by auto
  have 1: "p < length (all_jobs ?s') \<and> status (all_jobs ?s' ! p) = PENDING"
    if "p \<in> set (job_queue ?s')" for p
    using that q i(5)[of p] aj by (auto simp: nth_append)
  have 2: "p < length (all_jobs ?s') \<and> p \<notin> set (job_queue ?s') \<and>
           status (all_jobs ?s' ! p) \<noteq> WAITING_DEPS"
    if "p \<in> held ?ws" for p
    using that q i(6)[of p] aj fresh by (auto simp: nth_append)
  show ?thesis
    unfolding inv_struct_def Let_def
    using i(1-3,7,8,9) ws sh rest 0 1 2 by auto
qed

lemma append_nth:
  assumes "append_step sys sys'" "p < length (all_jobs (sched sys))"
  shows "all_jobs (sched sys') ! p = all_jobs (sched sys) ! p"
  using assms unfolding append_step_def appended_def by (auto simp: nth_append)

lemma append_cores:
  assumes "inv_struct n sys" "inv_cores n sys" "append_step sys sys'"
  shows "inv_cores n sys'"
proof -
  have "core_of (sched sys') (workers sys') w = core_of (sched sys) (workers sys) w" for w
  proof (cases "w < length (workers sys) \<and> has_core (workers sys ! w)")
    case True
    then obtain p where p: "pc_job (workers sys ! w) = Some p"
      by (cases "workers sys ! w") auto
    with True have "p \<in> held (workers sys)" by (auto simp: held_def holds_def)
    with assms(1) have "p < length (all_jobs (sched sys))"
      by (auto simp: inv_struct_def Let_def)
    from append_nth[OF assms(3) this] p True assms(3) show ?thesis
      by (simp add: core_of_def append_step_def)
  next
    case False
    with assms(3) show ?thesis by (auto simp: core_of_def append_step_def)
  qed
  moreover have "core_availability (sched sys') = core_availability (sched sys)"
    using assms(3) by (auto simp: append_step_def appended_def)
  ultimately show ?thesis using assms(2) by (simp add: inv_cores_def Let_def)
qed

lemma append_status:
  assumes "inv_status n sys" "append_step sys sys'"
  shows "inv_status n sys'"
proof -
  from assms(2) obtain j where
    ws: "workers sys' = workers sys" and sh: "shell_job (shell sys') = None" and
    aj: "all_jobs (sched sys') = all_jobs (sched sys) @ [j]" and
    st: "status j = PENDING \<or> status j = WAITING_DEPS"
    unfolding append_step_def appended_def by blast
  have te: "tested (shell sys') \<noteq> Some p" for p
    using tested_shell_job[of "shell sys'" p] sh by auto
  show ?thesis
    unfolding inv_status_def Let_def
  proof (intro allI impI)
    fix p assume p: "p < length (all_jobs (sched sys'))"
      and rs: "status (all_jobs (sched sys') ! p) = RUNNING \<or>
               status (all_jobs (sched sys') ! p) = SUSPENDED \<or> tested (shell sys') = Some p"
    have p': "p < length (all_jobs (sched sys))"
      using p rs st aj te by (cases "p = length (all_jobs (sched sys))") auto
    then have same: "all_jobs (sched sys') ! p = all_jobs (sched sys) ! p"
      using aj by (simp add: nth_append)
    with rs te have "placed n sys p"
      using inv_statusD[OF assms(1) p'] by auto
    then show "placed n sys' p"
      using same ws by (simp add: placed_def)
  qed
qed

lemma append_fresh:
  assumes "inv_struct n sys" "inv_fresh sys" "append_step sys sys'"
  shows "inv_fresh sys'"
proof -
  let ?s = "sched sys" and ?s' = "sched sys'"
  from assms(3) obtain j where
    ws: "workers sys' = workers sys" and
    aj: "all_jobs ?s' = all_jobs ?s @ [j]" and co: "assigned_core_id j = - 1" and
    q: "set (job_queue ?s') \<subseteq> insert (length (all_jobs ?s)) (set (job_queue ?s))"
    unfolding append_step_def appended_def by (metis order_refl subset_insertI)
  show ?thesis
    unfolding inv_fresh_def Let_def
  proof (intro allI impI)
    fix p assume p: "p < length (all_jobs ?s')"
      and c: "p \<in> set (job_queue ?s') \<or> status (all_jobs ?s' ! p) = WAITING_DEPS \<or>
              (\<exists>w. holds (workers sys') w p \<and> early (workers sys' ! w))"
    show "assigned_core_id (all_jobs ?s' ! p) = - 1"
    proof (cases "p = length (all_jobs ?s)")
      case True
      then show ?thesis using aj co by simp
    next
      case False
      with p aj have p': "p < length (all_jobs ?s)" by simp
      then have "all_jobs ?s' ! p = all_jobs ?s ! p" using aj by (simp add: nth_append)
      moreover have "p \<in> set (job_queue ?s) \<or> status (all_jobs ?s ! p) = WAITING_DEPS \<or>
              (\<exists>w. holds (workers sys) w p \<and> early (workers sys ! w))"
        using c q False ws calculation by auto
      ultimately show ?thesis
        using assms(2) p' unfolding inv_fresh_def Let_def by simp blast
    qed
  qed
qed

lemma holds_update:
  "w < length ws \<Longrightarrow>
   holds (ws[w := pc]) v p = (if v = w then pc_job pc = Some p else holds ws v p)"
  by (auto simp: holds_def)

lemma core_of_update:
  "w < length ws \<Longrightarrow>
   core_of s (ws[w := pc]) v =
     (if v = w then (if has_core pc then map_option (\<lambda>p. assigned_core_id (all_jobs s ! p)) (pc_job pc) else None)
      else core_of s ws v)"
  by (auto simp: core_of_def)

lemma status_frame:
  assumes "inv_status n sys"
    and "length (all_jobs (sched sys')) = length (all_jobs (sched sys))"
    and "\<And>p. p < length (all_jobs (sched sys)) \<Longrightarrow>
           status (all_jobs (sched sys') ! p) = RUNNING \<or>
           status (all_jobs (sched sys') ! p) = SUSPENDED \<or> tested (shell sys') = Some p \<Longrightarrow>
           status (all_jobs (sched sys) ! p) = RUNNING \<or>
           status (all_jobs (sched sys) ! p) = SUSPENDED \<or> tested (shell sys) = Some p"
    and "\<And>p. p < length (all_jobs (sched sys)) \<Longrightarrow> placed n sys p \<Longrightarrow> placed n sys' p"
  shows "inv_status n sys'"
  unfolding inv_status_def Let_def
proof (intro allI impI)
  fix p assume p: "p < length (all_jobs (sched sys'))"
    and rs: "status (all_jobs (sched sys') ! p) = RUNNING \<or>
             status (all_jobs (sched sys') ! p) = SUSPENDED \<or> tested (shell sys') = Some p"
  from p assms(2) have p': "p < length (all_jobs (sched sys))" by simp
  from assms(4)[OF p' inv_statusD[OF assms(1) p' assms(3)[OF p' rs]]]
  show "placed n sys' p" .
qed

lemma inv_freshD:
  "inv_fresh sys \<Longrightarrow> p < length (all_jobs (sched sys)) \<Longrightarrow>
   p \<in> set (job_queue (sched sys)) \<or> status (all_jobs (sched sys) ! p) = WAITING_DEPS \<or>
     (\<exists>w. holds (workers sys) w p \<and> early (workers sys ! w)) \<Longrightarrow>
   assigned_core_id (all_jobs (sched sys) ! p) = - 1"
  unfolding inv_fresh_def Let_def by blast

lemma inv_coresD:
  assumes "inv_cores n sys"
  shows "\<And>w c. core_of (sched sys) (workers sys) w = Some c \<Longrightarrow>
           0 \<le> c \<and> c < int n \<and> \<not> core_availability (sched sys) ! nat c"
    "\<And>w1 w2 c. core_of (sched sys) (workers sys) w1 = Some c \<Longrightarrow>
           core_of (sched sys) (workers sys) w2 = Some c \<Longrightarrow> w1 = w2"
    "\<And>k. k < n \<Longrightarrow> \<not> core_availability (sched sys) ! k \<Longrightarrow>
           \<exists>w. core_of (sched sys) (workers sys) w = Some (int k)"
  using assms unfolding inv_cores_def Let_def by blast+

lemma take_event:
  assumes "exec (Take w) sys = Some sys'"
  shows "(\<exists>job. take_step w job sys sys') \<or> quiet_step sys sys'"
proof -
  from assms have wa: "worker_at w sys = Some AtWait" and ne: "job_queue (sched sys) \<noteq> []"
    and run: "running (sched sys)" and nl: "\<not> locked sys"
    by (auto split: if_splits)
  from worker_atD[OF wa] have w: "w < length (workers sys)" "workers sys ! w = AtWait" by auto
  show ?thesis
  proof (cases "length (active_jobs (sched sys)) < max_concurrent_jobs (sched sys)")
    case True
    with assms wa ne run nl w have "take_step w (hd (job_queue (sched sys))) sys sys'"
      by (auto simp: take_step_def worker_take_def Let_def move_def pq_top_def pq_pop_mset)
    then show ?thesis by blast
  next
    case False
    with assms wa ne run nl have sys': "sys' = move w AtWait (sched sys) sys"
      by (auto simp: worker_take_def)
    have "quiet_step sys sys'"
      by (rule quiet_worker[where w=w and pc'=AtWait and q=0 and j'="all_jobs (sched sys) ! 0"])
         (use w sys' in \<open>auto simp: move_def\<close>)
    then show ?thesis by blast
  qed
qed

lemma take_held:
  assumes "w < length ws" "ws ! w = AtWait"
  shows "held (ws[w := Holding job]) = insert job (held ws)"
proof -
  have "holds ws v p \<Longrightarrow> v \<noteq> w" for v p
    using assms by (auto simp: holds_def)
  then show ?thesis
    using assms(1) unfolding held_def
    by (auto simp: holds_update split: if_splits)
qed

lemma take_unique:
  assumes "w < length ws" "ws ! w = AtWait" "unique_holder ws" "job \<notin> held ws"
  shows "unique_holder (ws[w := Holding job])"
  using assms unfolding unique_holder_def held_def
  by (auto simp: holds_update split: if_splits)

lemma take_struct:
  assumes "inv_struct n sys" "take_step w job sys sys'"
  shows "inv_struct n sys'"
proof -
  let ?s = "sched sys" and ?s' = "sched sys'" and ?ws = "workers sys"
  note i = inv_structD[OF assms(1)]
  from assms(2) have t:
    "w < length ?ws" "?ws ! w = AtWait" "workers sys' = ?ws[w := Holding job]"
    "job_queue ?s \<noteq> []" "job = hd (job_queue ?s)"
    "mset (job_queue ?s') = mset (tl (job_queue ?s))"
    "active_jobs ?s' = active_jobs ?s @ [job]" "all_jobs ?s' = all_jobs ?s"
    "core_availability ?s' = core_availability ?s" "num_cores ?s' = num_cores ?s"
    "shell sys' = shell sys"
    unfolding take_step_def Let_def by auto
  obtain r where q: "job_queue ?s = job # r" using t(4,5) by (cases "job_queue ?s") auto
  have sq: "set (job_queue ?s') = set r" "distinct (job_queue ?s')" "job \<notin> set r" "distinct r"
    using mset_eq_setD[OF t(6)] mset_eq_imp_distinct_iff[OF t(6)] i(4) q by auto
  have jq: "job \<in> set (job_queue ?s)" using q by simp
  then have jn: "job \<notin> held ?ws" using i(6)[of job] by blast
  have h: "held (workers sys') = insert job (held ?ws)"
    using take_held[OF t(1,2)] t(3) by simp
  have u: "unique_holder (workers sys')"
    using take_unique[OF t(1,2) i(7) jn] t(3) by simp
  have 1: "p < length (all_jobs ?s') \<and> status (all_jobs ?s' ! p) = PENDING"
    if "p \<in> set (job_queue ?s')" for p
    using that i(5)[of p] sq q t(8) by auto
  have 2: "p < length (all_jobs ?s') \<and> p \<notin> set (job_queue ?s') \<and>
           status (all_jobs ?s' ! p) \<noteq> WAITING_DEPS"
    if "p \<in> held (workers sys')" for p
    using that h i(5)[of job] i(6)[of p] sq q t(8) jq by auto
  have 3: "set (active_jobs ?s') \<subseteq> held (workers sys')" "distinct (active_jobs ?s')"
    using t(7) h i(8,9) jn by auto
  have 4: "p \<in> held (workers sys')" if "shell_job (shell sys') = Some p" for p
    using that i(10)[of p] h t(11) by simp
  show ?thesis
    unfolding inv_struct_def Let_def
    using i(1-3) t(1,3,9,10) sq(2) u 1 2 3 4 by auto
qed

lemma take_cores:
  assumes "inv_cores n sys" "take_step w job sys sys'"
  shows "inv_cores n sys'"
proof -
  have "core_of (sched sys') (workers sys') v = core_of (sched sys) (workers sys) v" for v
    using assms(2) unfolding take_step_def Let_def
    by (auto simp: core_of_def nth_list_update)
  moreover have "core_availability (sched sys') = core_availability (sched sys)"
    using assms(2) by (auto simp: take_step_def Let_def)
  ultimately show ?thesis using assms(1) by (simp add: inv_cores_def Let_def)
qed

lemma take_status:
  assumes "inv_status n sys" "take_step w job sys sys'"
  shows "inv_status n sys'"
proof -
  from assms(2) have t: "w < length (workers sys)" "workers sys ! w = AtWait"
    "workers sys' = (workers sys)[w := Holding job]" "all_jobs (sched sys') = all_jobs (sched sys)"
    "shell sys' = shell sys"
    unfolding take_step_def Let_def by auto
  show ?thesis
  proof (rule status_frame[OF assms(1)])
    fix p assume "placed n sys p"
    then show "placed n sys' p"
    proof (rule placed_kept)
      fix v assume v: "holds (workers sys) v p" "started (workers sys ! v)"
      with t(2) have "v \<noteq> w" by auto
      with v t show "(holds (workers sys') v p \<and> started (workers sys' ! v)) \<or>
           (0 \<le> assigned_core_id (all_jobs (sched sys') ! p) \<and>
            assigned_core_id (all_jobs (sched sys') ! p) < int n)"
        by (auto simp: holds_update)
    qed (simp add: t)
  qed (simp_all add: t)
qed

lemma take_fresh:
  assumes "inv_fresh sys" "take_step w job sys sys'"
  shows "inv_fresh sys'"
  unfolding inv_fresh_def Let_def
proof (intro allI impI)
  let ?s = "sched sys" and ?s' = "sched sys'"
  fix p assume p: "p < length (all_jobs ?s')"
    and c: "p \<in> set (job_queue ?s') \<or> status (all_jobs ?s' ! p) = WAITING_DEPS \<or>
            (\<exists>v. holds (workers sys') v p \<and> early (workers sys' ! v))"
  from assms(2) have t:
    "w < length (workers sys)" "workers sys ! w = AtWait" "workers sys' = (workers sys)[w := Holding job]"
    "job_queue ?s \<noteq> []" "job = hd (job_queue ?s)"
    "mset (job_queue ?s') = mset (tl (job_queue ?s))" "all_jobs ?s' = all_jobs ?s"
    unfolding take_step_def Let_def by auto
  have sub: "set (job_queue ?s') \<subseteq> set (job_queue ?s)"
    using mset_eq_setD[OF t(6)] t(4) by (cases "job_queue ?s") auto
  have jq: "job \<in> set (job_queue ?s)" using t(4,5) by simp
  have "p \<in> set (job_queue ?s) \<or> status (all_jobs ?s ! p) = WAITING_DEPS \<or>
            (\<exists>v. holds (workers sys) v p \<and> early (workers sys ! v))"
    using c sub t(1,3,7) jq by (auto simp: holds_update nth_list_update split: if_splits)
  from inv_freshD[OF assms(1) _ this] p t(7)
  show "assigned_core_id (all_jobs ?s' ! p) = - 1" by simp
qed

lemma assign_core_from_spec:
  "assign_core_from i now s = (c, s1) \<Longrightarrow>
   (\<exists>k. i \<le> k \<and> k < length (core_availability s) \<and> core_availability s ! k \<and>
        (\<forall>j. i \<le> j \<and> j < k \<longrightarrow> \<not> core_availability s ! j) \<and> c = int k \<and>
        s1 = s\<lparr>core_availability := (core_availability s)[k := False],
               core_last_used := (core_last_used s)[k := now]\<rparr>) \<or>
   ((\<forall>j. i \<le> j \<and> j < length (core_availability s) \<longrightarrow> \<not> core_availability s ! j) \<and>
     c = - 1 \<and> s1 = s)"
proof (induction i now s arbitrary: c s1 rule: assign_core_from.induct)
  case (1 i now s)
  show ?case
  proof (cases "i < length (core_availability s)")
    case False
    with 1(2) show ?thesis by (subst (asm) assign_core_from.simps) auto
  next
    case True
    show ?thesis
    proof (cases "core_availability s ! i")
      case av: True
      with True 1(2) have "c = int i"
        "s1 = s\<lparr>core_availability := (core_availability s)[i := False],
               core_last_used := (core_last_used s)[i := now]\<rparr>"
        by (subst (asm) assign_core_from.simps, simp)+
      with True av show ?thesis by (intro disjI1 exI[where x=i]) auto
    next
      case av: False
      with True 1(2) have "assign_core_from (Suc i) now s = (c, s1)"
        by (subst (asm) assign_core_from.simps) simp
      from 1(1)[OF True av this] show ?thesis
      proof (elim disjE exE conjE)
        fix k assume k: "Suc i \<le> k" "k < length (core_availability s)" "core_availability s ! k"
          "\<forall>j. Suc i \<le> j \<and> j < k \<longrightarrow> \<not> core_availability s ! j" "c = int k"
          "s1 = s\<lparr>core_availability := (core_availability s)[k := False],
               core_last_used := (core_last_used s)[k := now]\<rparr>"
        have "\<forall>j. i \<le> j \<and> j < k \<longrightarrow> \<not> core_availability s ! j"
          using k(4) av by (metis Suc_leI le_neq_implies_less)
        with k show ?thesis by (intro disjI1 exI[where x=k]) auto
      next
        assume n: "\<forall>j. Suc i \<le> j \<and> j < length (core_availability s) \<longrightarrow> \<not> core_availability s ! j"
          "c = - 1" "s1 = s"
        have "\<forall>j. i \<le> j \<and> j < length (core_availability s) \<longrightarrow> \<not> core_availability s ! j"
          using n(1) av by (metis Suc_leI le_neq_implies_less)
        with n show ?thesis by auto
      qed
    qed
  qed
qed

lemma free_core_exists:
  assumes "inv_struct n sys" "inv_cores n sys"
    and "w < length (workers sys)" "core_of (sched sys) (workers sys) w = None"
  shows "\<exists>k < n. core_availability (sched sys) ! k"
proof (rule ccontr)
  assume "\<not> ?thesis"
  then have all: "\<forall>k < n. \<not> core_availability (sched sys) ! k" by auto
  note c = inv_coresD[OF assms(2)]
  have len: "length (workers sys) = n" using inv_structD(1)[OF assms(1)] .
  from all c(3) have "\<forall>k \<in> {..<n}. \<exists>v. core_of (sched sys) (workers sys) v = Some (int k)"
    by simp
  from bchoice[OF this] obtain f where
    f': "\<forall>k \<in> {..<n}. core_of (sched sys) (workers sys) (f k) = Some (int k)" ..
  then have f: "\<And>k. k < n \<Longrightarrow> core_of (sched sys) (workers sys) (f k) = Some (int k)"
    by simp
  have inj: "inj_on f {..<n}"
  proof (rule inj_onI)
    fix a b assume ab: "a \<in> {..<n}" "b \<in> {..<n}" "f a = f b"
    have "core_of (sched sys) (workers sys) (f a) = Some (int a)"
      "core_of (sched sys) (workers sys) (f b) = Some (int b)"
      using f[of a] f[of b] ab(1,2) by simp_all
    then have "Some (int a) = Some (int b)" by (simp only: ab(3))
    then show "a = b" by simp
  qed
  have rng: "f ` {..<n} \<subseteq> {..<n} - {w}"
  proof
    fix v assume "v \<in> f ` {..<n}"
    then obtain k where k: "k < n" "v = f k" by auto
    from f[OF k(1)] have "f k < length (workers sys)"
      by (auto simp: core_of_def split: if_splits)
    moreover from f[OF k(1)] assms(4) have "f k \<noteq> w" by auto
    ultimately show "v \<in> {..<n} - {w}" using k len by auto
  qed
  have "card (f ` {..<n}) = n" using inj by (simp add: card_image)
  moreover have "card ({..<n} - {w}) < n" using assms(3) len by (simp add: card_Diff_singleton_if)
  moreover have "card (f ` {..<n}) \<le> card ({..<n} - {w})"
    using rng by (intro card_mono) auto
  ultimately show False by simp
qed

lemma assign_event:
  assumes "inv_struct n sys" "inv_cores n sys" "exec (AssignCore w now) sys = Some sys'"
  shows "\<exists>q k. assign_step w q k sys sys'"
proof -
  from assms(3) obtain q where wa: "worker_at w sys = Some (Started q)"
    and sys': "sys' = move w (HasCore q) (execute_job_assign now q (sched sys)) sys"
    by (auto split: option.splits worker_pc.splits if_splits)
  from worker_atD[OF wa] have w: "w < length (workers sys)" "workers sys ! w = Started q" by auto
  then have "core_of (sched sys) (workers sys) w = None" by (simp add: core_of_def)
  from free_core_exists[OF assms(1,2) w(1) this] inv_structD(2)[OF assms(1)]
  obtain k0 where k0: "k0 < length (core_availability (sched sys))" "core_availability (sched sys) ! k0"
    by auto
  obtain c s1 where ac: "assign_core_from 0 now (sched sys) = (c, s1)" by force
  from assign_core_from_spec[OF ac] k0 obtain k where
    k: "k < length (core_availability (sched sys))" "core_availability (sched sys) ! k" "c = int k"
       "s1 = (sched sys)\<lparr>core_availability := (core_availability (sched sys))[k := False],
               core_last_used := (core_last_used (sched sys))[k := now]\<rparr>"
    by auto
  have "assign_step w q k sys sys'"
    using w k sys' ac
    by (simp add: assign_step_def Let_def move_def execute_job_assign_def assign_core_def upd_job_def)
  then show ?thesis by blast
qed

lemma assign_struct:
  assumes "inv_struct n sys" "assign_step w q k sys sys'"
  shows "inv_struct n sys'"
proof -
  from assms(2) have t:
    "w < length (workers sys)" "workers sys ! w = Started q"
    "workers sys' = (workers sys)[w := HasCore q]"
    "all_jobs (sched sys') = (all_jobs (sched sys))[q := (all_jobs (sched sys) ! q)\<lparr>assigned_core_id := int k\<rparr>]"
    "core_availability (sched sys') = (core_availability (sched sys))[k := False]"
    "job_queue (sched sys') = job_queue (sched sys)" "active_jobs (sched sys') = active_jobs (sched sys)"
    "num_cores (sched sys') = num_cores (sched sys)" "shell sys' = shell sys"
    unfolding assign_step_def Let_def by auto
  have st: "status (all_jobs (sched sys') ! p) = status (all_jobs (sched sys) ! p)"
    if "p < length (all_jobs (sched sys))" for p
    using that t(4) by (cases "p = q") auto
  show ?thesis
    by (rule struct_frame[OF assms(1)]) (use t st in \<open>auto simp: nth_list_update\<close>)
qed

lemma assign_cores:
  assumes "inv_struct n sys" "inv_cores n sys" "assign_step w q k sys sys'"
  shows "inv_cores n sys'"
proof -
  let ?s = "sched sys" and ?s' = "sched sys'" and ?ws = "workers sys" and ?ws' = "workers sys'"
  from assms(3) have t:
    "w < length ?ws" "?ws ! w = Started q" "?ws' = ?ws[w := HasCore q]"
    "k < length (core_availability ?s)" "core_availability ?s ! k"
    "all_jobs ?s' = (all_jobs ?s)[q := (all_jobs ?s ! q)\<lparr>assigned_core_id := int k\<rparr>]"
    "core_availability ?s' = (core_availability ?s)[k := False]"
    unfolding assign_step_def Let_def by auto
  note i = inv_structD[OF assms(1)]
  note c = inv_coresD[OF assms(2)]
  have hq: "holds ?ws w q" using t(1,2) by (simp add: holds_def)
  then have qL: "q < length (all_jobs ?s)" using i(6)[of q] by (auto simp: held_def)
  have kn: "k < n" using t(4) i(2) by simp
  have cw: "core_of ?s' ?ws' w = Some (int k)"
    using t(1,3,6) qL by (simp add: core_of_def)
  have co: "core_of ?s' ?ws' v = core_of ?s ?ws v" if "v \<noteq> w" for v
  proof (cases "v < length ?ws \<and> has_core (?ws ! v)")
    case True
    then obtain p where p: "pc_job (?ws ! v) = Some p" by (cases "?ws ! v") auto
    with True have "holds ?ws v p" by (simp add: holds_def)
    with hq that i(7) have "p \<noteq> q" unfolding unique_holder_def by blast
    with True p that t(3,6) show ?thesis by (simp add: core_of_def)
  next
    case False
    with that t(3) show ?thesis by (auto simp: core_of_def)
  qed
  have old_w: "core_of ?s ?ws w = None" using t(1,2) by (simp add: core_of_def)
  have 1: "0 \<le> c \<and> c < int n \<and> \<not> core_availability ?s' ! nat c"
    if "core_of ?s' ?ws' v = Some c" for v c
  proof (cases "v = w")
    case True
    with that cw kn t(4,7) show ?thesis by auto
  next
    case False
    with that co have o: "core_of ?s ?ws v = Some c" by simp
    from c(1)[OF o] have "nat c \<noteq> k" using t(5) by auto
    with c(1)[OF o] t(7) show ?thesis by simp
  qed
  have 2: "v1 = v2" if "core_of ?s' ?ws' v1 = Some c" "core_of ?s' ?ws' v2 = Some c" for v1 v2 c
  proof -
    have ne: "core_of ?s ?ws v \<noteq> Some (int k)" for v
      using c(1)[of v "int k"] t(5) by auto
    show ?thesis
    proof (cases "v1 = w"; cases "v2 = w")
      assume "v1 = w" "v2 \<noteq> w"
      with that cw co[of v2] ne[of v2] show ?thesis by auto
    next
      assume "v1 \<noteq> w" "v2 = w"
      with that cw co[of v1] ne[of v1] show ?thesis by auto
    next
      assume "v1 \<noteq> w" "v2 \<noteq> w"
      with that co c(2) show ?thesis by auto
    qed auto
  qed
  have 3: "\<exists>v. core_of ?s' ?ws' v = Some (int k')"
    if "k' < n" "\<not> core_availability ?s' ! k'" for k'
  proof (cases "k' = k")
    case True
    with cw show ?thesis by blast
  next
    case False
    with that t(7) have "\<not> core_availability ?s ! k'" by simp
    from c(3)[OF that(1) this] obtain v where v: "core_of ?s ?ws v = Some (int k')" by blast
    with old_w have "v \<noteq> w" by auto
    from co[OF this] v have "core_of ?s' ?ws' v = Some (int k')" by simp
    then show ?thesis ..
  qed
  show ?thesis unfolding inv_cores_def Let_def using 1 2 3 by blast
qed

lemma assign_status:
  assumes "inv_struct n sys" "inv_status n sys" "assign_step w q k sys sys'"
  shows "inv_status n sys'"
proof -
  let ?s = "sched sys" and ?s' = "sched sys'"
  from assms(3) have t: "w < length (workers sys)" "workers sys ! w = Started q"
    "workers sys' = (workers sys)[w := HasCore q]"
    "all_jobs ?s' = (all_jobs ?s)[q := (all_jobs ?s ! q)\<lparr>assigned_core_id := int k\<rparr>]"
    "k < length (core_availability ?s)" "shell sys' = shell sys"
    unfolding assign_step_def Let_def by auto
  have kn: "k < n" using t(5) inv_structD(2)[OF assms(1)] by simp
  have st: "status (all_jobs ?s' ! p) = status (all_jobs ?s ! p)" if "p < length (all_jobs ?s)" for p
    using that t(4) by (cases "p = q") auto
  show ?thesis
  proof (rule status_frame[OF assms(2)])
    fix p assume p: "p < length (all_jobs ?s)" and pl: "placed n sys p"
    show "placed n sys' p"
    proof (cases "p = q")
      case True
      with p t(4) kn show ?thesis by (simp add: placed_def)
    next
      case False
      then have same: "all_jobs ?s' ! p = all_jobs ?s ! p" using t(4) by simp
      from pl show ?thesis
      proof (rule placed_kept)
        fix v assume v: "holds (workers sys) v p" "started (workers sys ! v)"
        with t(1,2) False have "v \<noteq> w" by (auto simp: holds_def)
        with v t(1,3) show "(holds (workers sys') v p \<and> started (workers sys' ! v)) \<or>
           (0 \<le> assigned_core_id (all_jobs ?s' ! p) \<and> assigned_core_id (all_jobs ?s' ! p) < int n)"
          by (auto simp: holds_update)
      qed (simp add: same)
    qed
  qed (use st t in simp_all)
qed

lemma assign_fresh:
  assumes "inv_struct n sys" "inv_fresh sys" "assign_step w q k sys sys'"
  shows "inv_fresh sys'"
  unfolding inv_fresh_def Let_def
proof (intro allI impI)
  let ?s = "sched sys" and ?s' = "sched sys'" and ?ws = "workers sys"
  fix p assume p: "p < length (all_jobs ?s')"
    and c: "p \<in> set (job_queue ?s') \<or> status (all_jobs ?s' ! p) = WAITING_DEPS \<or>
            (\<exists>v. holds (workers sys') v p \<and> early (workers sys' ! v))"
  from assms(3) have t: "w < length ?ws" "?ws ! w = Started q"
    "workers sys' = ?ws[w := HasCore q]"
    "all_jobs ?s' = (all_jobs ?s)[q := (all_jobs ?s ! q)\<lparr>assigned_core_id := int k\<rparr>]"
    "job_queue ?s' = job_queue ?s"
    unfolding assign_step_def Let_def by auto
  note i = inv_structD[OF assms(1)]
  have hq: "holds ?ws w q" using t(1,2) by (simp add: holds_def)
  then have qh: "q \<in> held ?ws" by (auto simp: held_def)
  have pq: "p \<noteq> q"
  proof
    assume e: "p = q"
    from c show False
    proof (elim disjE exE conjE)
      assume "p \<in> set (job_queue ?s')" with e t(5) i(6)[OF qh] show False by simp
    next
      assume "status (all_jobs ?s' ! p) = WAITING_DEPS"
      with e t(4) p i(6)[OF qh] show False by simp
    next
      fix v assume v: "holds (workers sys') v p" "early (workers sys' ! v)"
      then have "v \<noteq> w" using t(1,3) by auto
      with v t(1,3) e have "holds ?ws v q" by (simp add: holds_update)
      with hq i(7) \<open>v \<noteq> w\<close> show False unfolding unique_holder_def by blast
    qed
  qed
  then have same: "all_jobs ?s' ! p = all_jobs ?s ! p" using t(4) by simp
  have "p \<in> set (job_queue ?s) \<or> status (all_jobs ?s ! p) = WAITING_DEPS \<or>
            (\<exists>v. holds ?ws v p \<and> early (?ws ! v))"
    using c same t(1,3,5) pq by (auto simp: holds_update nth_list_update split: if_splits)
  from inv_freshD[OF assms(2) _ this] p t(4) same
  show "assigned_core_id (all_jobs ?s' ! p) = - 1" by simp
qed

lemma release_core_proj [simp]:
  "all_jobs (release_core c s) = all_jobs s" "job_queue (release_core c s) = job_queue s"
  "active_jobs (release_core c s) = active_jobs s" "num_cores (release_core c s) = num_cores s"
  "completed_jobs (release_core c s) = completed_jobs s"
  "length (core_availability (release_core c s)) = length (core_availability s)"
  by (simp_all add: release_core_def)

lemma release_core_same_table:
  "core_availability s1 = core_availability s \<Longrightarrow>
   core_availability (release_core c s1) = core_availability (release_core c s)"
  by (simp add: release_core_def)

lemma reaped_event:
  assumes "inv_struct n sys" "exec (Reaped w ws now) sys = Some sys'"
  shows "\<exists>q j'. release_step w q j' sys sys'"
proof -
  let ?s = "sched sys"
  from assms(2) obtain q where wa: "worker_at w sys = Some (InWaitpid q)"
    and sys': "sys' = move w (Returned q) (execute_job_reaped ws now q ?s) sys"
    by (auto split: option.splits worker_pc.splits if_splits)
  from worker_atD[OF wa] have w: "w < length (workers sys)" "workers sys ! w = InWaitpid q" by auto
  then have "q \<in> held (workers sys)" by (auto simp: held_def holds_def)
  with inv_structD(6)[OF assms(1)] have qL: "q < length (all_jobs ?s)" by blast
  let ?j1 = "(all_jobs ?s ! q)\<lparr>end_time := now,
                actual_runtime := to_milliseconds (now - start_time (all_jobs ?s ! q))\<rparr>"
  let ?j2 = "(case ws of
        Exited code \<Rightarrow> ?j1\<lparr>exit_code := code, status := (if code = 0 then COMPLETED else FAILED)\<rparr>
      | Abnormal \<Rightarrow> ?j1\<lparr>status := FAILED, exit_code := - 1\<rparr>)"
  have "release_step w q ?j2 sys sys'"
    using w qL sys'
    by (cases ws)
       (auto simp: release_step_def Let_def move_def execute_job_reaped_def upd_job_def
          execute_job_result_def execute_job_release_def
          intro!: release_core_same_table)
  then show ?thesis by blast
qed

lemma release_event:
  assumes "exec (Release w) sys = Some sys'"
  shows "\<exists>q. release_step w q (all_jobs (sched sys) ! q) sys sys'"
proof -
  let ?s = "sched sys"
  from assms obtain q where wa: "worker_at w sys = Some (Ending q)"
    and sys': "sys' = move w (Returned q) (execute_job_release q ?s) sys"
    by (auto split: option.splits worker_pc.splits if_splits)
  from worker_atD[OF wa] have w: "w < length (workers sys)" "workers sys ! w = Ending q" by auto
  have "release_step w q (all_jobs ?s ! q) sys sys'"
    using w sys'
    by (auto simp: release_step_def Let_def move_def execute_job_release_def)
  then show ?thesis by blast
qed

lemma release_struct:
  assumes "inv_struct n sys" "release_step w q j' sys sys'"
  shows "inv_struct n sys'"
proof -
  from assms(2) have t:
    "w < length (workers sys)" "pc_job (workers sys ! w) = Some q"
    "workers sys' = (workers sys)[w := Returned q]"
    "all_jobs (sched sys') = (all_jobs (sched sys))[q := j']"
    "status j' = status (all_jobs (sched sys) ! q) \<or> status j' = COMPLETED \<or> status j' = FAILED"
    "core_availability (sched sys') =
        core_availability (release_core (assigned_core_id (all_jobs (sched sys) ! q)) (sched sys))"
    "job_queue (sched sys') = job_queue (sched sys)" "active_jobs (sched sys') = active_jobs (sched sys)"
    "num_cores (sched sys') = num_cores (sched sys)" "shell sys' = shell sys"
    unfolding release_step_def Let_def by auto
  have qh: "q \<in> held (workers sys)" using t(1,2) by (auto simp: held_def holds_def)
  have st: "status (all_jobs (sched sys') ! p) = status (all_jobs (sched sys) ! p) \<or>
        (p \<in> held (workers sys) \<and> status (all_jobs (sched sys') ! p) \<noteq> WAITING_DEPS)"
    if "p < length (all_jobs (sched sys))" for p
    using that t(4,5) qh by (cases "p = q") auto
  show ?thesis
    by (rule struct_frame[OF assms(1)]) (use t st in \<open>auto simp: nth_list_update\<close>)
qed

lemma release_cores:
  assumes "inv_struct n sys" "inv_cores n sys" "release_step w q j' sys sys'"
  shows "inv_cores n sys'"
proof -
  let ?s = "sched sys" and ?s' = "sched sys'" and ?ws = "workers sys" and ?ws' = "workers sys'"
  let ?c = "assigned_core_id (all_jobs ?s ! q)"
  from assms(3) have t:
    "w < length ?ws" "has_core (?ws ! w)" "pc_job (?ws ! w) = Some q"
    "?ws' = ?ws[w := Returned q]"
    "all_jobs ?s' = (all_jobs ?s)[q := j']" "assigned_core_id j' = ?c"
    "core_availability ?s' = core_availability (release_core ?c ?s)"
    unfolding release_step_def Let_def by auto
  note i = inv_structD[OF assms(1)]
  note c = inv_coresD[OF assms(2)]
  have cw: "core_of ?s ?ws w = Some ?c" using t(1-3) by (simp add: core_of_def)
  from c(1)[OF cw] have cr: "0 \<le> ?c" "?c < int n" by auto
  then have av': "core_availability ?s' = (core_availability ?s)[nat ?c := True]"
    using t(7) i(2) by (simp add: release_core_def)
  have core_same: "assigned_core_id (all_jobs ?s' ! p) = assigned_core_id (all_jobs ?s ! p)" for p
    using t(5,6) by (cases "q < length (all_jobs ?s)"; cases "p = q") (auto simp: list_update_beyond)
  have nw: "core_of ?s' ?ws' w = None" using t(1,4) by (simp add: core_of_def)
  have co: "core_of ?s' ?ws' v = core_of ?s ?ws v" if "v \<noteq> w" for v
    using that t(4) core_same by (auto simp: core_of_def)
  have 1: "0 \<le> c' \<and> c' < int n \<and> \<not> core_availability ?s' ! nat c'"
    if "core_of ?s' ?ws' v = Some c'" for v c'
  proof -
    from that nw have vw: "v \<noteq> w" by auto
    with that co have o: "core_of ?s ?ws v = Some c'" by simp
    from c(2)[OF o, of w] cw vw have "c' \<noteq> ?c" by auto
    with c(1)[OF o] cr have "nat c' \<noteq> nat ?c" by auto
    with c(1)[OF o] av' show ?thesis by simp
  qed
  have 2: "v1 = v2" if "core_of ?s' ?ws' v1 = Some c'" "core_of ?s' ?ws' v2 = Some c'" for v1 v2 c'
  proof -
    from that nw have "v1 \<noteq> w" "v2 \<noteq> w" by auto
    with that co c(2) show ?thesis by auto
  qed
  have 3: "\<exists>v. core_of ?s' ?ws' v = Some (int k')"
    if "k' < n" "\<not> core_availability ?s' ! k'" for k'
  proof -
    have ne: "k' \<noteq> nat ?c"
      using that av' cr i(2) by (auto simp: nth_list_update split: if_splits)
    with that av' have "\<not> core_availability ?s ! k'" by simp
    from c(3)[OF that(1) this] obtain v where v: "core_of ?s ?ws v = Some (int k')" by blast
    with cw ne cr have "v \<noteq> w" by auto
    from co[OF this] v have "core_of ?s' ?ws' v = Some (int k')" by simp
    then show ?thesis ..
  qed
  show ?thesis unfolding inv_cores_def Let_def using 1 2 3 by blast
qed

lemma release_status:
  assumes "inv_status n sys" "release_step w q j' sys sys'"
  shows "inv_status n sys'"
proof -
  let ?s = "sched sys" and ?s' = "sched sys'"
  from assms(2) have t: "w < length (workers sys)" "has_core (workers sys ! w)"
    "workers sys' = (workers sys)[w := Returned q]"
    "all_jobs ?s' = (all_jobs ?s)[q := j']"
    "assigned_core_id j' = assigned_core_id (all_jobs ?s ! q)"
    "status j' = status (all_jobs ?s ! q) \<or> status j' = COMPLETED \<or> status j' = FAILED"
    "shell sys' = shell sys"
    unfolding release_step_def Let_def by auto
  have core_same: "assigned_core_id (all_jobs ?s' ! p) = assigned_core_id (all_jobs ?s ! p)" for p
    using t(4,5) by (cases "q < length (all_jobs ?s)"; cases "p = q") (auto simp: list_update_beyond)
  have nst: "\<not> started (workers sys ! w)" using t(2) by (cases "workers sys ! w") auto
  show ?thesis
  proof (rule status_frame[OF assms(1)])
    fix p assume p: "p < length (all_jobs ?s)"
      and rs: "status (all_jobs ?s' ! p) = RUNNING \<or> status (all_jobs ?s' ! p) = SUSPENDED \<or>
               tested (shell sys') = Some p"
    then show "status (all_jobs ?s ! p) = RUNNING \<or> status (all_jobs ?s ! p) = SUSPENDED \<or>
               tested (shell sys) = Some p"
      using t(4,6,7) by (cases "p = q") auto
  next
    fix p assume "placed n sys p"
    then show "placed n sys' p"
    proof (rule placed_kept)
      fix v assume v: "holds (workers sys) v p" "started (workers sys ! v)"
      with nst have "v \<noteq> w" by auto
      with v t(1,3) show "(holds (workers sys') v p \<and> started (workers sys' ! v)) \<or>
           (0 \<le> assigned_core_id (all_jobs ?s' ! p) \<and> assigned_core_id (all_jobs ?s' ! p) < int n)"
        by (auto simp: holds_update)
    qed (simp add: core_same)
  qed (simp add: t)
qed

lemma release_fresh:
  assumes "inv_struct n sys" "inv_fresh sys" "release_step w q j' sys sys'"
  shows "inv_fresh sys'"
  unfolding inv_fresh_def Let_def
proof (intro allI impI)
  let ?s = "sched sys" and ?s' = "sched sys'" and ?ws = "workers sys"
  fix p assume p: "p < length (all_jobs ?s')"
    and c: "p \<in> set (job_queue ?s') \<or> status (all_jobs ?s' ! p) = WAITING_DEPS \<or>
            (\<exists>v. holds (workers sys') v p \<and> early (workers sys' ! v))"
  from assms(3) have t: "w < length ?ws" "pc_job (?ws ! w) = Some q"
    "workers sys' = ?ws[w := Returned q]"
    "all_jobs ?s' = (all_jobs ?s)[q := j']"
    "assigned_core_id j' = assigned_core_id (all_jobs ?s ! q)"
    "status j' = status (all_jobs ?s ! q) \<or> status j' = COMPLETED \<or> status j' = FAILED"
    "job_queue ?s' = job_queue ?s"
    unfolding release_step_def Let_def by auto
  have core_same: "assigned_core_id (all_jobs ?s' ! p) = assigned_core_id (all_jobs ?s ! p)"
    using t(4,5) p by (cases "p = q") auto
  have st: "status (all_jobs ?s' ! p) = WAITING_DEPS \<Longrightarrow> status (all_jobs ?s ! p) = WAITING_DEPS"
    using t(4,6) p by (cases "p = q") auto
  have "p \<in> set (job_queue ?s) \<or> status (all_jobs ?s ! p) = WAITING_DEPS \<or>
            (\<exists>v. holds ?ws v p \<and> early (?ws ! v))"
    using c st t(1,3,7) by (auto simp: holds_update nth_list_update split: if_splits)
  from inv_freshD[OF assms(2) _ this] p t(4) core_same
  show "assigned_core_id (all_jobs ?s' ! p) = - 1" by simp
qed

lemma dependency_completed_update:
  "i < length js \<Longrightarrow> status (js ! i) \<noteq> COMPLETED \<Longrightarrow>
   dependency_completed (js[i := (js ! i)\<lparr>status := PENDING\<rparr>]) d = dependency_completed js d"
proof (induction js arbitrary: i)
  case Nil
  then show ?case by simp
next
  case (Cons x xs)
  show ?case
  proof (cases i)
    case 0
    with Cons.prems show ?thesis by (simp add: dependency_completed_def)
  next
    case (Suc k)
    with Cons.prems Cons.IH[of k] show ?thesis
      by (simp add: dependency_completed_def)
  qed
qed

lemma dependencies_satisfied_update:
  "i < length js \<Longrightarrow> status (js ! i) \<noteq> COMPLETED \<Longrightarrow>
   dependencies_satisfied j (js[i := (js ! i)\<lparr>status := PENDING\<rparr>]) = dependencies_satisfied j js"
  by (simp add: dependencies_satisfied_def dependency_completed_update cong: list.pred_cong)

lemma released_by_refl: "released_by c {} s s"
  by (simp add: released_by_def)

lemma release_dependent_cases:
  "release_dependent c s i = s \<or>
   (status (all_jobs s ! i) = WAITING_DEPS \<and>
    job_id (all_jobs s ! c) \<in> set (dependencies (all_jobs s ! i)) \<and>
    dependencies_satisfied (all_jobs s ! i) (all_jobs s) \<and>
    release_dependent c s i = queue_push i (upd_job i (\<lambda>j. j\<lparr>status := PENDING\<rparr>) s))"
  by (simp add: release_dependent_def Let_def)

lemma may_release_after:
  assumes i: "i < length (all_jobs s)" "status (all_jobs s ! i) = WAITING_DEPS"
    and s1: "s1 = queue_push i (upd_job i (\<lambda>j. j\<lparr>status := PENDING\<rparr>) s)"
    and p: "may_release c s1 p" "p \<noteq> i"
  shows "may_release c s p"
proof -
  have aj: "all_jobs s1 = (all_jobs s)[i := (all_jobs s ! i)\<lparr>status := PENDING\<rparr>]"
    using s1 by (simp add: queue_push_def upd_job_def)
  have ne: "status (all_jobs s ! i) \<noteq> COMPLETED" using i(2) by simp
  have id: "job_id (all_jobs s1 ! c) = job_id (all_jobs s ! c)"
    using aj i(1) by (cases "c = i") auto
  from p aj have "all_jobs s1 ! p = all_jobs s ! p" by simp
  with p(1) id dependencies_satisfied_update[OF i(1) ne] aj show ?thesis
    by (simp add: may_release_def)
qed

lemma release_fold:
  assumes "distinct xs" "\<forall>i \<in> set xs. i < length (all_jobs s)"
  shows "\<exists>R. R \<subseteq> set xs \<and> released_by c R s (foldl (release_dependent c) s xs)"
  using assms
proof (induction xs arbitrary: s)
  case Nil
  then show ?case using released_by_refl by auto
next
  case (Cons i xs)
  let ?s1 = "release_dependent c s i"
  from Cons.prems have d: "distinct xs" "i \<notin> set xs" and iL: "i < length (all_jobs s)" by auto
  from release_dependent_cases[of c s i] show ?case
  proof (elim disjE conjE)
    assume e: "?s1 = s"
    with Cons.IH[OF d(1), of s] Cons.prems obtain R where
      "R \<subseteq> set xs" "released_by c R s (foldl (release_dependent c) s xs)" by auto
    with e show ?thesis by (intro exI[where x=R]) auto
  next
    assume w: "status (all_jobs s ! i) = WAITING_DEPS"
      and dep: "job_id (all_jobs s ! c) \<in> set (dependencies (all_jobs s ! i))"
      and sat: "dependencies_satisfied (all_jobs s ! i) (all_jobs s)"
      and e: "?s1 = queue_push i (upd_job i (\<lambda>j. j\<lparr>status := PENDING\<rparr>) s)"
    have aj: "all_jobs ?s1 = (all_jobs s)[i := (all_jobs s ! i)\<lparr>status := PENDING\<rparr>]"
      and q1: "mset (job_queue ?s1) = add_mset i (mset (job_queue s))"
      and rest: "active_jobs ?s1 = active_jobs s" "completed_jobs ?s1 = completed_jobs s"
        "core_availability ?s1 = core_availability s" "num_cores ?s1 = num_cores s"
      using e by (simp_all add: queue_push_def upd_job_def)
    have L1: "length (all_jobs ?s1) = length (all_jobs s)" using aj by simp
    from Cons.IH[OF d(1), of ?s1] Cons.prems L1 obtain R where
      R: "R \<subseteq> set xs" and rb: "released_by c R ?s1 (foldl (release_dependent c) ?s1 xs)"
      by auto
    let ?s2 = "foldl (release_dependent c) ?s1 xs"
    from rb have r:
      "finite R" "\<And>p. p \<in> R \<Longrightarrow> may_release c ?s1 p"
      "length (all_jobs ?s2) = length (all_jobs ?s1)"
      "\<And>p. p < length (all_jobs ?s1) \<Longrightarrow>
         all_jobs ?s2 ! p = (if p \<in> R then (all_jobs ?s1 ! p)\<lparr>status := PENDING\<rparr> else all_jobs ?s1 ! p)"
      "mset (job_queue ?s2) = mset (job_queue ?s1) + mset_set R"
      "active_jobs ?s2 = active_jobs ?s1" "completed_jobs ?s2 = completed_jobs ?s1"
      "core_availability ?s2 = core_availability ?s1" "num_cores ?s2 = num_cores ?s1"
      unfolding released_by_def by auto
    have iR: "i \<notin> R" using R d(2) by auto
    have m: "may_release c s p" if "p \<in> insert i R" for p
    proof (cases "p = i")
      case True
      with iL w dep sat show ?thesis by (simp add: may_release_def)
    next
      case False
      with that have "p \<in> R" by simp
      from may_release_after[OF iL w e r(2)[OF this] False] show ?thesis .
    qed
    have n: "all_jobs ?s2 ! p =
        (if p \<in> insert i R then (all_jobs s ! p)\<lparr>status := PENDING\<rparr> else all_jobs s ! p)"
      if "p < length (all_jobs s)" for p
      using r(4)[of p] that L1 aj iR by (cases "p = i") auto
    have q: "mset (job_queue ?s2) = mset (job_queue s) + mset_set (insert i R)"
      using r(5) q1 r(1) iR by simp
    have "released_by c (insert i R) s ?s2"
      unfolding released_by_def
      using r(1,3,6-9) L1 m n q rest by auto
    moreover have "insert i R \<subseteq> set (i # xs)" using R by auto
    ultimately show ?thesis by (intro exI[where x="insert i R"]) simp
  qed
qed

lemma update_job_dependencies_released:
  "\<exists>R. released_by c R s (update_job_dependencies c s)"
  using release_fold[of "[0..<length (all_jobs s)]" s c]
  by (auto simp: update_job_dependencies_def)

lemma released_by_finished:
  assumes "released_by q R s3 s'"
    and "all_jobs s3 = all_jobs s" "job_queue s3 = job_queue s"
    and "active_jobs s3 = remove1 q (active_jobs s)"
    and "core_availability s3 = core_availability s" "num_cores s3 = num_cores s"
  shows "finished q R s s'"
  using assms unfolding released_by_def finished_def may_release_def by auto

lemma worker_done_finished: "\<exists>R. finished q R s (worker_done q s)"
proof (cases "q \<in> set (active_jobs s)")
  case False
  then have "finished q {} s (worker_done q s)"
    by (simp add: worker_done_def finished_def remove1_idem)
  then show ?thesis ..
next
  case True
  let ?s1 = "s\<lparr>active_jobs := remove1 q (active_jobs s)\<rparr>"
  let ?st = "status (all_jobs s ! q)"
  show ?thesis
  proof (cases "?st = COMPLETED \<or> ?st = FAILED \<or> ?st = KILLED")
    case False
    with True have "worker_done q s = ?s1" by (simp add: worker_done_def Let_def)
    then have "finished q {} s (worker_done q s)" by (simp add: finished_def)
    then show ?thesis ..
  next
    case t: True
    let ?s2 = "?s1\<lparr>completed_jobs := completed_jobs ?s1 @ [q]\<rparr>"
    let ?s3 = "(if ?st = COMPLETED then
                  ?s2\<lparr>stats := (stats ?s2)\<lparr>total_jobs_completed := total_jobs_completed (stats ?s2) + 1\<rparr>\<rparr>
                else if ?st = FAILED then
                  ?s2\<lparr>stats := (stats ?s2)\<lparr>total_jobs_failed := total_jobs_failed (stats ?s2) + 1\<rparr>\<rparr>
                else ?s2)"
    have wd: "worker_done q s = update_job_dependencies q ?s3"
      using True t by (simp add: worker_done_def Let_def)
    from update_job_dependencies_released[of q ?s3] obtain R where
      "released_by q R ?s3 (update_job_dependencies q ?s3)" ..
    then have "finished q R s (update_job_dependencies q ?s3)"
      by (rule released_by_finished) simp_all
    with wd show ?thesis by auto
  qed
qed

lemma unlocked_shell_job: "\<not> locked sys \<Longrightarrow> shell_job (shell sys) = None"
  by (cases "shell sys") (auto simp: locked_def)

lemma finish_event:
  assumes "exec (Finish w) sys = Some sys'"
  shows "\<exists>q R. finish_step w q R sys sys'"
proof -
  from assms obtain q where wa: "worker_at w sys = Some (Returned q)"
    and sys': "sys' = move w AtWait (worker_done q (sched sys)) sys" and nl: "\<not> locked sys"
    by (auto split: option.splits worker_pc.splits if_splits)
  from worker_atD[OF wa] worker_done_finished[of q "sched sys"] sys' unlocked_shell_job[OF nl]
  show ?thesis by (auto simp: finish_step_def move_def)
qed

lemma finish_held:
  assumes "w < length ws" "ws ! w = Returned q" "unique_holder ws"
  shows "held (ws[w := AtWait]) = held ws - {q}"
proof -
  have hq: "holds ws w q" using assms(1,2) by (simp add: holds_def)
  have "holds ws v p \<Longrightarrow> (v = w) = (p = q)" for v p
    using hq assms(3) unfolding unique_holder_def by (auto simp: holds_def)
  then show ?thesis
    using assms(1) hq unfolding held_def by (auto simp: holds_update split: if_splits)
qed

lemma finish_unique:
  assumes "w < length ws" "unique_holder ws"
  shows "unique_holder (ws[w := AtWait])"
  using assms unfolding unique_holder_def by (auto simp: holds_update split: if_splits)

lemma finishedD:
  assumes "finished q R s s'"
  shows "finite R" "\<And>p. p \<in> R \<Longrightarrow> may_release q s p"
    "length (all_jobs s') = length (all_jobs s)"
    "\<And>p. p < length (all_jobs s) \<Longrightarrow>
       all_jobs s' ! p = (if p \<in> R then (all_jobs s ! p)\<lparr>status := PENDING\<rparr> else all_jobs s ! p)"
    "mset (job_queue s') = mset (job_queue s) + mset_set R"
    "active_jobs s' = remove1 q (active_jobs s)"
    "core_availability s' = core_availability s" "num_cores s' = num_cores s"
  using assms unfolding finished_def by auto

lemma finished_queue:
  assumes "finished q R s s'"
  shows "set (job_queue s') = set (job_queue s) \<union> R"
    "distinct (job_queue s') = (distinct (job_queue s) \<and> set (job_queue s) \<inter> R = {})"
proof -
  note f = finishedD[OF assms]
  from finite_distinct_list[OF f(1)] obtain rs where rs: "set rs = R" "distinct rs" by blast
  then have "mset_set R = mset rs" using mset_set_set by blast
  with f(5) have m: "mset (job_queue s') = mset (job_queue s @ rs)" by simp
  from mset_eq_setD[OF m] rs show "set (job_queue s') = set (job_queue s) \<union> R" by simp
  from mset_eq_imp_distinct_iff[OF m] rs
  show "distinct (job_queue s') = (distinct (job_queue s) \<and> set (job_queue s) \<inter> R = {})"
    by auto
qed

lemma finish_struct:
  assumes "inv_struct n sys" "finish_step w q R sys sys'"
  shows "inv_struct n sys'"
proof -
  let ?s = "sched sys" and ?s' = "sched sys'" and ?ws = "workers sys" and ?ws' = "workers sys'"
  from assms(2) have t: "w < length ?ws" "?ws ! w = Returned q" "?ws' = ?ws[w := AtWait]"
    and fin: "finished q R ?s ?s'" and sh: "shell sys' = shell sys" "shell_job (shell sys) = None"
    unfolding finish_step_def by auto
  note f = finishedD[OF fin]
  note fq = finished_queue[OF fin]
  note i = inv_structD[OF assms(1)]
  have h: "held ?ws' = held ?ws - {q}" using finish_held[OF t(1,2) i(7)] t(3) by simp
  have u: "unique_holder ?ws'" using finish_unique[OF t(1) i(7)] t(3) by simp
  have Rw: "p < length (all_jobs ?s) \<and> status (all_jobs ?s ! p) = WAITING_DEPS" if "p \<in> R" for p
    using f(2)[OF that] by (simp add: may_release_def)
  have RQ: "set (job_queue ?s) \<inter> R = {}" using Rw i(5) by fastforce
  have Rh: "p \<notin> R" if "p \<in> held ?ws" for p using Rw[of p] i(6)[OF that] by auto
  have 0: "distinct (job_queue ?s')" using fq(2) i(4) RQ by simp
  have 1: "p < length (all_jobs ?s') \<and> status (all_jobs ?s' ! p) = PENDING"
    if "p \<in> set (job_queue ?s')" for p
  proof (cases "p \<in> R")
    case True
    with Rw[OF True] f(3) f(4)[of p] show ?thesis by simp
  next
    case False
    with that fq(1) have "p \<in> set (job_queue ?s)" by simp
    with i(5)[OF this] False f(3) f(4)[of p] show ?thesis by simp
  qed
  have 2: "p < length (all_jobs ?s') \<and> p \<notin> set (job_queue ?s') \<and>
           status (all_jobs ?s' ! p) \<noteq> WAITING_DEPS"
    if "p \<in> held ?ws'" for p
  proof -
    from that h have ph: "p \<in> held ?ws" by simp
    from i(6)[OF ph] Rh[OF ph] f(3) f(4)[of p] fq(1) show ?thesis by simp
  qed
  have 3: "set (active_jobs ?s') \<subseteq> held ?ws'" "distinct (active_jobs ?s')"
    using f(6) i(8,9) h by auto
  show ?thesis
    unfolding inv_struct_def Let_def
    using i(1-3) t(1,3) f(7,8) 0 u 1 2 3 sh by auto
qed

lemma finished_core:
  assumes "finished q R s s'" "p < length (all_jobs s)"
  shows "assigned_core_id (all_jobs s' ! p) = assigned_core_id (all_jobs s ! p)"
  using finishedD(4)[OF assms] by simp

lemma finish_cores:
  assumes "inv_struct n sys" "inv_cores n sys" "finish_step w q R sys sys'"
  shows "inv_cores n sys'"
proof -
  let ?s = "sched sys" and ?s' = "sched sys'" and ?ws = "workers sys" and ?ws' = "workers sys'"
  from assms(3) have t: "w < length ?ws" "?ws ! w = Returned q" "?ws' = ?ws[w := AtWait]"
    and fin: "finished q R ?s ?s'"
    unfolding finish_step_def by auto
  note i = inv_structD[OF assms(1)]
  have "core_of ?s' ?ws' v = core_of ?s ?ws v" for v
  proof (cases "v = w")
    case True
    with t show ?thesis by (simp add: core_of_def)
  next
    case False
    show ?thesis
    proof (cases "v < length ?ws \<and> has_core (?ws ! v)")
      case True
      then obtain p where p: "pc_job (?ws ! v) = Some p" by (cases "?ws ! v") auto
      with True have "p \<in> held ?ws" by (auto simp: held_def holds_def)
      with i(6) have "p < length (all_jobs ?s)" by blast
      from finished_core[OF fin this] p True False t(3) show ?thesis
        by (simp add: core_of_def)
    next
      case f: False
      with False t(3) show ?thesis by (auto simp: core_of_def)
    qed
  qed
  moreover have "core_availability ?s' = core_availability ?s"
    using finishedD(7)[OF fin] .
  ultimately show ?thesis using assms(2) by (simp add: inv_cores_def Let_def)
qed

lemma finish_status:
  assumes "inv_status n sys" "finish_step w q R sys sys'"
  shows "inv_status n sys'"
proof -
  let ?s = "sched sys" and ?s' = "sched sys'"
  from assms(2) have t: "w < length (workers sys)" "workers sys ! w = Returned q"
    "workers sys' = (workers sys)[w := AtWait]" "shell sys' = shell sys"
    and fin: "finished q R ?s ?s'"
    unfolding finish_step_def by auto
  note f = finishedD[OF fin]
  show ?thesis
  proof (rule status_frame[OF assms(1) f(3)])
    fix p assume p: "p < length (all_jobs ?s)"
      and rs: "status (all_jobs ?s' ! p) = RUNNING \<or> status (all_jobs ?s' ! p) = SUSPENDED \<or>
               tested (shell sys') = Some p"
    then show "status (all_jobs ?s ! p) = RUNNING \<or> status (all_jobs ?s ! p) = SUSPENDED \<or>
               tested (shell sys) = Some p"
      using f(4)[OF p] t(4) by (cases "p \<in> R") auto
  next
    fix p assume p: "p < length (all_jobs ?s)" and "placed n sys p"
    then show "placed n sys' p"
    proof (rule_tac placed_kept)
      fix v assume v: "holds (workers sys) v p" "started (workers sys ! v)"
      with t(2) have "v \<noteq> w" by auto
      with v t(1,3) show "(holds (workers sys') v p \<and> started (workers sys' ! v)) \<or>
           (0 \<le> assigned_core_id (all_jobs ?s' ! p) \<and> assigned_core_id (all_jobs ?s' ! p) < int n)"
        by (auto simp: holds_update)
    qed (simp_all add: finished_core[OF fin p])
  qed
qed

lemma finish_fresh:
  assumes "inv_fresh sys" "finish_step w q R sys sys'"
  shows "inv_fresh sys'"
  unfolding inv_fresh_def Let_def
proof (intro allI impI)
  let ?s = "sched sys" and ?s' = "sched sys'" and ?ws = "workers sys"
  fix p assume p: "p < length (all_jobs ?s')"
    and c: "p \<in> set (job_queue ?s') \<or> status (all_jobs ?s' ! p) = WAITING_DEPS \<or>
            (\<exists>v. holds (workers sys') v p \<and> early (workers sys' ! v))"
  from assms(2) have t: "w < length ?ws" "?ws ! w = Returned q"
    "workers sys' = ?ws[w := AtWait]" and fin: "finished q R ?s ?s'"
    unfolding finish_step_def by auto
  note f = finishedD[OF fin]
  note fq = finished_queue[OF fin]
  from p f(3) have p': "p < length (all_jobs ?s)" by simp
  have Rw: "status (all_jobs ?s ! p) = WAITING_DEPS" if "p \<in> R"
    using f(2)[OF that] by (simp add: may_release_def)
  have st: "status (all_jobs ?s' ! p) = WAITING_DEPS \<Longrightarrow> status (all_jobs ?s ! p) = WAITING_DEPS"
    using f(4)[OF p'] by (cases "p \<in> R") auto
  have "p \<in> set (job_queue ?s) \<or> status (all_jobs ?s ! p) = WAITING_DEPS \<or>
            (\<exists>v. holds ?ws v p \<and> early (?ws ! v))"
    using c st Rw fq(1) t(1,3) by (auto simp: holds_update nth_list_update split: if_splits)
  from inv_freshD[OF assms(1) p' this] finished_core[OF fin p']
  show "assigned_core_id (all_jobs ?s' ! p) = - 1" by simp
qed

lemma step_cases:
  assumes "inv_struct n sys" "inv_cores n sys" "exec e sys = Some sys'"
  shows "quiet_step sys sys' \<or> append_step sys sys' \<or> (\<exists>w job. take_step w job sys sys') \<or>
         (\<exists>w q k. assign_step w q k sys sys') \<or> (\<exists>w q j'. release_step w q j' sys sys') \<or>
         (\<exists>w q R. finish_step w q R sys sys')"
proof (cases e)
  case (Submit cmd p now)
  with submit_events[OF assms(3)] show ?thesis by blast
next
  case (SubmitWithDeps cmd deps p now)
  with submit_events[OF assms(3)] show ?thesis by blast
next
  case (SubmitScript path fl now)
  with submit_events[OF assms(3)] show ?thesis by blast
next
  case ScriptFields
  with quiet_script_fields assms(3) show ?thesis by blast
next
  case (SubmitArray tmpl sz p)
  with quiet_settings[OF assms(3)] show ?thesis by blast
next
  case (ArrayNext now)
  with submit_events[OF assms(3)] show ?thesis by blast
next
  case ArrayFields
  with quiet_array_fields assms(3) show ?thesis by blast
next
  case (Kill jid)
  with quiet_kill[OF assms(1)] assms(3) show ?thesis by blast
next
  case (Suspend jid)
  with quiet_suspend[OF assms(1)] assms(3) show ?thesis by blast
next
  case (Resume jid)
  with quiet_resume[OF assms(1)] assms(3) show ?thesis by blast
next
  case (ChangePriority jid p)
  with quiet_change_priority assms(3) show ?thesis by blast
next
  case (KillFind jid)
  with quiet_test[OF assms(1,3)] show ?thesis by blast
next
  case (SuspendTest jid)
  with quiet_test[OF assms(1,3)] show ?thesis by blast
next
  case (ResumeTest jid)
  with quiet_test[OF assms(1,3)] show ?thesis by blast
next
  case (PriorityTest jid p)
  with quiet_test[OF assms(1,3)] show ?thesis by blast
next
  case ControlWrite
  with quiet_write[OF assms(1)] assms(3) show ?thesis by blast
next
  case (SetPolicy pol)
  with quiet_settings[OF assms(3)] show ?thesis by blast
next
  case (SetMaxJobs m)
  with quiet_settings[OF assms(3)] show ?thesis by blast
next
  case (EnableAffinity b)
  with quiet_settings[OF assms(3)] show ?thesis by blast
next
  case (Take w)
  with assms(3) have "exec (Take w) sys = Some sys'" by simp
  from take_event[OF this] show ?thesis by blast
next
  case (Mark w now)
  with assms(3) have "exec (Mark w now) sys = Some sys'" by simp
  from quiet_mark[OF this] show ?thesis by blast
next
  case (AssignCore w now)
  with assms(3) have "exec (AssignCore w now) sys = Some sys'" by simp
  from assign_event[OF assms(1,2) this] show ?thesis by blast
next
  case (Fork w r1 r2 pid)
  with assms(3) have "exec (Fork w r1 r2 pid) sys = Some sys'" by simp
  from quiet_fork[OF this] show ?thesis by blast
next
  case (Reaped w ws now)
  with assms(3) have "exec (Reaped w ws now) sys = Some sys'" by simp
  from reaped_event[OF assms(1) this] show ?thesis by blast
next
  case (Result w ws now)
  with assms(3) have "exec (Result w ws now) sys = Some sys'" by simp
  from quiet_result[OF this] show ?thesis by blast
next
  case (Release w)
  with assms(3) have "exec (Release w) sys = Some sys'" by simp
  from release_event[OF this] show ?thesis by blast
next
  case (Finish w)
  with assms(3) have "exec (Finish w) sys = Some sys'" by simp
  from finish_event[OF this] show ?thesis by blast
next
  case StopBegin
  with quiet_settings[OF assms(3)] show ?thesis by blast
next
  case (Leave w)
  with assms(3) have "exec (Leave w) sys = Some sys'" by simp
  from quiet_leave[OF this] show ?thesis by blast
next
  case StopEnd
  with quiet_settings[OF assms(3)] show ?thesis by blast
qed

lemma inv_all_step:
  assumes "inv_all n sys" "exec e sys = Some sys'"
  shows "inv_all n sys'"
proof -
  from assms(1) have i: "inv_struct n sys" "inv_cores n sys" "inv_status n sys" "inv_fresh sys"
    by (auto simp: inv_all_def)
  from step_cases[OF i(1,2) assms(2)] show ?thesis
  proof (elim disjE exE)
    assume a: "quiet_step sys sys'"
    show ?thesis unfolding inv_all_def
      using quiet_struct[OF i(1) a] quiet_cores[OF i(2) a] quiet_status[OF i(3) a]
        quiet_fresh[OF i(1) i(4) a] by simp
  next
    assume a: "append_step sys sys'"
    show ?thesis unfolding inv_all_def
      using append_struct[OF i(1) a] append_cores[OF i(1,2) a] append_status[OF i(3) a]
        append_fresh[OF i(1) i(4) a] by simp
  next
    fix w job assume a: "take_step w job sys sys'"
    show ?thesis unfolding inv_all_def
      using take_struct[OF i(1) a] take_cores[OF i(2) a] take_status[OF i(3) a]
        take_fresh[OF i(4) a] by simp
  next
    fix w q k assume a: "assign_step w q k sys sys'"
    show ?thesis unfolding inv_all_def
      using assign_struct[OF i(1) a] assign_cores[OF i(1,2) a] assign_status[OF i(1) i(3) a]
        assign_fresh[OF i(1) i(4) a] by simp
  next
    fix w q j' assume a: "release_step w q j' sys sys'"
    show ?thesis unfolding inv_all_def
      using release_struct[OF i(1) a] release_cores[OF i(1,2) a] release_status[OF i(3) a]
        release_fresh[OF i(1) i(4) a] by simp
  next
    fix w q R assume a: "finish_step w q R sys sys'"
    show ?thesis unfolding inv_all_def
      using finish_struct[OF i(1) a] finish_cores[OF i(1,2) a] finish_status[OF i(3) a]
        finish_fresh[OF i(4) a] by simp
  qed
qed

lemma inv_all_run:
  "inv_all n sys \<Longrightarrow> run es sys = Some sys' \<Longrightarrow> inv_all n sys'"
proof (induction es arbitrary: sys)
  case Nil
  then show ?case by simp
next
  case (Cons e es)
  from Cons.prems(2) obtain sys1 where e: "exec e sys = Some sys1" and r: "run es sys1 = Some sys'"
    by (auto split: option.splits)
  from Cons.IH[OF inv_all_step[OF Cons.prems(1) e] r] show ?case .
qed

lemma inv_all_boot: "inv_all n (boot n now)"
  by (simp add: inv_all_def boot_struct boot_cores boot_status boot_fresh)

lemma reachable_inv: "reachable n sys \<Longrightarrow> inv_all n sys"
  unfolding reachable_def using inv_all_run[OF inv_all_boot] by blast

section \<open>Running jobs and their cores; the release of waiting jobs\<close>

lemma run_reachable: "run es (boot n now) = Some sys \<Longrightarrow> reachable n sys"
  unfolding reachable_def by blast

lemma dependencies_satisfiedD:
  assumes "dependencies_satisfied job js" "d \<in> set (dependencies job)"
  shows "\<exists>j \<in> set js. job_id j = d \<and> status j = COMPLETED"
proof -
  from assms have "dependency_completed js d"
    by (simp add: dependencies_satisfied_def list_all_iff)
  then obtain j where "find (\<lambda>j. job_id j = d) js = Some j" "status j = COMPLETED"
    by (auto simp: dependency_completed_def split: option.splits)
  with find_in_set[of "\<lambda>j. job_id j = d" js j] show ?thesis by auto
qed




text \<open>
  The third position is taken. The job is suspended while its worker waits for the child;
  \<^verbatim>\<open>resume_job\<close> reads \<open>SUSPENDED\<close>, the child exits and \<^verbatim>\<open>execute_job\<close> writes
  \<open>COMPLETED\<close>, then \<^verbatim>\<open>resume_job\<close> writes \<open>RUNNING\<close>. The worker releases the core and,
  the status not being final, only erases the job from the active list: the job stays
  \<open>RUNNING\<close> with its slot available and no worker.
\<close>

lemma resumed_after_result:
  "(case run (start_one @ [Suspend 1, ResumeTest 1, Result 0 (Exited 0) 3000000000, ControlWrite,
                           Release 0, Finish 0]) (boot 1 0) of
      None \<Rightarrow> False
    | Some sys \<Rightarrow>
        status (job_at sys 0) = RUNNING \<and> assigned_core_id (job_at sys 0) = 0 \<and>
        core_availability (sched sys) = [True] \<and> workers sys = [AtWait] \<and>
        active_jobs (sched sys) = [] \<and> completed_jobs (sched sys) = [])"
  by code_simp

text \<open>
  C5. In every state the running system can reach, a step that takes a job out of
  \<open>WAITING_DEPS\<close> makes it \<open>PENDING\<close> and puts it into the queue, and it happens only
  when every id in the job's dependencies is the id of a submitted job whose status is
  \<open>COMPLETED\<close>; the step is the second critical section of a worker whose job is one of
  the dependencies. So a job with a dependency that is not completed stays waiting.
\<close>

theorem waiting_released_only_when_completed:
  assumes "reachable n sys" "exec e sys = Some sys'"
    and "p < length (all_jobs (sched sys))"
    and "status (job_at sys p) = WAITING_DEPS" "status (job_at sys' p) \<noteq> WAITING_DEPS"
  shows "status (job_at sys' p) = PENDING \<and> p \<in> set (job_queue (sched sys')) \<and>
         (\<forall>d \<in> set (dependencies (job_at sys p)).
            \<exists>j \<in> set (all_jobs (sched sys)). job_id j = d \<and> status j = COMPLETED) \<and>
         (\<exists>w q. workers sys ! w = Returned q \<and>
            job_id (job_at sys q) \<in> set (dependencies (job_at sys p)))"
proof -
  let ?s = "sched sys" and ?s' = "sched sys'"
  from reachable_inv[OF assms(1)] have i: "inv_struct n sys" "inv_cores n sys"
    by (auto simp: inv_all_def)
  note st = inv_structD[OF i(1)]
  have w: "status (all_jobs ?s ! p) = WAITING_DEPS" "status (all_jobs ?s' ! p) \<noteq> WAITING_DEPS"
    using assms(4,5) by (simp_all add: job_at_def)
  have nh: "p \<notin> held (workers sys)" using st(6)[of p] w(1) by auto
  from step_cases[OF i assms(2)] show ?thesis
  proof (elim disjE exE)
    assume "quiet_step sys sys'"
    from quiet_waiting[OF i(1) this assms(3)] w show ?thesis by simp
  next
    assume "append_step sys sys'"
    from append_nth[OF this assms(3)] w show ?thesis by simp
  next
    fix v job assume "take_step v job sys sys'"
    then have "all_jobs ?s' = all_jobs ?s" by (simp add: take_step_def Let_def)
    with w show ?thesis by simp
  next
    fix v q k assume "assign_step v q k sys sys'"
    then have "all_jobs ?s' = (all_jobs ?s)[q := (all_jobs ?s ! q)\<lparr>assigned_core_id := int k\<rparr>]"
      by (simp add: assign_step_def Let_def)
    with w assms(3) show ?thesis by (cases "p = q") auto
  next
    fix v q j' assume r: "release_step v q j' sys sys'"
    then have "q \<in> held (workers sys)" "all_jobs ?s' = (all_jobs ?s)[q := j']"
      by (auto simp: release_step_def Let_def held_def holds_def)
    with nh w show ?thesis by (cases "p = q") auto
  next
    fix v q R assume f: "finish_step v q R sys sys'"
    then have fin: "finished q R ?s ?s'" and v: "workers sys ! v = Returned q"
      by (auto simp: finish_step_def)
    note fd = finishedD[OF fin]
    from fd(4)[OF assms(3)] w have pR: "p \<in> R" by (cases "p \<in> R") auto
    from fd(2)[OF pR] have m: "job_id (all_jobs ?s ! q) \<in> set (dependencies (all_jobs ?s ! p))"
      "dependencies_satisfied (all_jobs ?s ! p) (all_jobs ?s)"
      by (auto simp: may_release_def)
    have 1: "status (job_at sys' p) = PENDING"
      using fd(4)[OF assms(3)] pR by (simp add: job_at_def)
    have 2: "p \<in> set (job_queue ?s')" using finished_queue(1)[OF fin] pR by simp
    have 3: "\<forall>d \<in> set (dependencies (job_at sys p)).
            \<exists>j \<in> set (all_jobs ?s). job_id j = d \<and> status j = COMPLETED"
      using dependencies_satisfiedD[OF m(2)] by (simp add: job_at_def)
    from 1 2 3 m(1) v show ?thesis by (auto simp: job_at_def)
  qed
qed

text \<open>
  The theorem at the step that ends job 1: job 2, which depends on job 1 only, is
  released; job 3, which depends on jobs 1 and 2, stays in \<open>WAITING_DEPS\<close>.
\<close>

theorem waiting_released_only_when_completed_witness:
  "\<exists>sys sys'. run start_two (boot 1 0) = Some sys \<and> reachable 1 sys \<and>
      exec (Finish 0) sys = Some sys' \<and> 1 < length (all_jobs (sched sys)) \<and>
      status (job_at sys 1) = WAITING_DEPS \<and> status (job_at sys' 1) = PENDING \<and>
      job_queue (sched sys') = [1] \<and>
      (\<forall>d \<in> set (dependencies (job_at sys 1)).
          \<exists>j \<in> set (all_jobs (sched sys)). job_id j = d \<and> status j = COMPLETED) \<and>
      status (job_at sys 2) = WAITING_DEPS \<and> status (job_at sys' 2) = WAITING_DEPS"
proof -
  have ne: "run (start_two @ [Finish 0]) (boot 1 0) \<noteq> None" by code_simp
  then obtain sys sys' where r: "run start_two (boot 1 0) = Some sys"
    and e: "exec (Finish 0) sys = Some sys'"
    by (cases "run start_two (boot 1 0)") (auto simp: start_two_def split: option.splits)
  have f: "map_option (\<lambda>sys. (length (all_jobs (sched sys)), status (job_at sys 1),
              status (job_at sys 2), map_option (\<lambda>sys'. (status (job_at sys' 1),
              status (job_at sys' 2), job_queue (sched sys'))) (exec (Finish 0) sys)))
           (run start_two (boot 1 0)) =
         Some (3, WAITING_DEPS, WAITING_DEPS, Some (PENDING, WAITING_DEPS, [1]))"
    by code_simp
  with r e have g: "1 < length (all_jobs (sched sys))" "status (job_at sys 1) = WAITING_DEPS"
    "status (job_at sys' 1) = PENDING" "job_queue (sched sys') = [1]"
    "status (job_at sys 2) = WAITING_DEPS" "status (job_at sys' 2) = WAITING_DEPS"
    by auto
  from g(3) have ne': "status (job_at sys' 1) \<noteq> WAITING_DEPS" by simp
  from waiting_released_only_when_completed[OF run_reachable[OF r] e g(1,2) ne']
    r e g run_reachable[OF r]
  show ?thesis by blast
qed

section \<open>The completed list grows without bound\<close>

lemma run_append:
  "run (xs @ ys) sys = (case run xs sys of None \<Rightarrow> None | Some sys' \<Rightarrow> run ys sys')"
  by (induction xs arbitrary: sys) (auto split: option.splits)

lemma foldl_unchanged: "(\<And>i. i \<in> set xs \<Longrightarrow> f s i = s) \<Longrightarrow> foldl f s xs = s"
  by (induction xs) auto

lemma update_job_dependencies_none_waiting:
  assumes "list_all (\<lambda>j. status j \<noteq> WAITING_DEPS) (all_jobs s)"
  shows "update_job_dependencies c s = s"
  unfolding update_job_dependencies_def
proof (rule foldl_unchanged)
  fix i assume "i \<in> set [0..<length (all_jobs s)]"
  then have "status (all_jobs s ! i) \<noteq> WAITING_DEPS"
    using assms by (simp add: list_all_length)
  then show "release_dependent c s i = s" by (simp add: release_dependent_def Let_def)
qed

lemma pq_single: "pq_push lt x [] = [x]" "pq_top [x] = x" "pq_pop lt [x] = []"
  by (simp_all add: pq_push_def push_heap_def push_heap_loop.simps pq_top_def pq_pop_def pop_heap_def)

lemma one_job_at_rest:
  assumes "at_rest sys"
  shows "\<exists>sys'. run one_job sys = Some sys' \<and> at_rest sys' \<and>
           length (completed_jobs (sched sys')) = Suc (length (completed_jobs (sched sys)))"
proof -
  let ?s = "sched sys"
  let ?L = "length (all_jobs ?s)"
  from assms have a: "workers sys = [AtWait]" "shell sys = MainIdle" "running ?s"
    "job_queue ?s = []" "active_jobs ?s = []" "core_availability ?s = [True]"
    "0 < max_concurrent_jobs ?s" "list_all (\<lambda>j. status j \<noteq> WAITING_DEPS) (all_jobs ?s)"
    by (auto simp: at_rest_def)
  obtain sys1 where 1: "exec (Submit ''true'' MEDIUM 0) sys = Some sys1"
    and s1: "workers sys1 = [AtWait]" "shell sys1 = MainIdle" "running (sched sys1)"
      "job_queue (sched sys1) = [?L]" "active_jobs (sched sys1) = []"
      "core_availability (sched sys1) = [True]"
      "max_concurrent_jobs (sched sys1) = max_concurrent_jobs ?s"
      "all_jobs (sched sys1) = all_jobs ?s @ [new_job (next_job_id ?s) ''true'' MEDIUM 0]"
      "completed_jobs (sched sys1) = completed_jobs ?s"
    using a by (simp add: idle_do_def submit_job_def Let_def queue_push_def count_submitted_def
        pq_single)
  obtain sys2 where 2: "exec (Take 0) sys1 = Some sys2"
    and s2: "workers sys2 = [Holding ?L]" "shell sys2 = MainIdle" "running (sched sys2)"
      "job_queue (sched sys2) = []" "active_jobs (sched sys2) = [?L]"
      "core_availability (sched sys2) = [True]"
      "all_jobs (sched sys2) = all_jobs (sched sys1)"
      "completed_jobs (sched sys2) = completed_jobs ?s"
      "max_concurrent_jobs (sched sys2) = max_concurrent_jobs ?s"
    using s1 a(7) by (simp add: worker_at_def worker_take_def Let_def move_def pq_single locked_def)
  let ?j0 = "new_job (next_job_id ?s) ''true'' MEDIUM 0"
  obtain sys3 where 3: "exec (Mark 0 0) sys2 = Some sys3"
    and s3: "workers sys3 = [Started ?L]" "shell sys3 = MainIdle" "running (sched sys3)"
      "job_queue (sched sys3) = []" "active_jobs (sched sys3) = [?L]"
      "core_availability (sched sys3) = [True]"
      "all_jobs (sched sys3) = all_jobs ?s @ [?j0\<lparr>status := RUNNING, thread_id := Some 0, start_time := 0\<rparr>]"
      "completed_jobs (sched sys3) = completed_jobs ?s"
      "max_concurrent_jobs (sched sys3) = max_concurrent_jobs ?s"
    using s2 s1(7,8) by (simp add: worker_at_def move_def execute_job_mark_def upd_job_def)
  let ?j3 = "?j0\<lparr>status := RUNNING, thread_id := Some 0, start_time := 0\<rparr>"
  obtain sys4 where 4: "exec (AssignCore 0 0) sys3 = Some sys4"
    and s4: "workers sys4 = [HasCore ?L]" "shell sys4 = MainIdle" "running (sched sys4)"
      "job_queue (sched sys4) = []" "active_jobs (sched sys4) = [?L]"
      "core_availability (sched sys4) = [False]"
      "all_jobs (sched sys4) = all_jobs ?s @ [?j3\<lparr>assigned_core_id := 0\<rparr>]"
      "completed_jobs (sched sys4) = completed_jobs ?s"
      "max_concurrent_jobs (sched sys4) = max_concurrent_jobs ?s"
    using s3 by (simp add: worker_at_def move_def execute_job_assign_def assign_core_def
        assign_core_from.simps upd_job_def locked_def)
  let ?j4 = "?j3\<lparr>assigned_core_id := 0\<rparr>"
  let ?j5 = "(simulate_memory_usage (simulate_cpu_usage 0 0 ?j4))\<lparr>process_id := 1\<rparr>"
  obtain sys5 where 5: "exec (Fork 0 0 0 1) sys4 = Some sys5"
    and s5: "workers sys5 = [InWaitpid ?L]" "shell sys5 = MainIdle" "running (sched sys5)"
      "job_queue (sched sys5) = []" "active_jobs (sched sys5) = [?L]"
      "core_availability (sched sys5) = [False]"
      "all_jobs (sched sys5) = all_jobs ?s @ [?j5]"
      "completed_jobs (sched sys5) = completed_jobs ?s"
      "max_concurrent_jobs (sched sys5) = max_concurrent_jobs ?s"
    using s4 by (simp add: worker_at_def move_def execute_job_fork_def upd_job_def Let_def)
  have j5: "assigned_core_id ?j5 = 0"
    by (simp add: simulate_memory_usage_def simulate_cpu_usage_def Let_def)
  let ?j6 = "?j5\<lparr>end_time := 0, actual_runtime := to_milliseconds (0 - start_time ?j5),
                  exit_code := 0, status := COMPLETED\<rparr>"
  obtain sys6 where 6: "exec (Reaped 0 (Exited 0) 0) sys5 = Some sys6"
    and s6: "workers sys6 = [Returned ?L]" "shell sys6 = MainIdle" "running (sched sys6)"
      "job_queue (sched sys6) = []" "active_jobs (sched sys6) = [?L]"
      "core_availability (sched sys6) = [True]"
      "all_jobs (sched sys6) = all_jobs ?s @ [?j6]"
      "completed_jobs (sched sys6) = completed_jobs ?s"
      "max_concurrent_jobs (sched sys6) = max_concurrent_jobs ?s"
    using s5 j5 by (simp add: worker_at_def move_def execute_job_reaped_def execute_job_result_def
        execute_job_release_def upd_job_def Let_def release_core_def locked_def release_waits_def)
  have nw: "list_all (\<lambda>j. status j \<noteq> WAITING_DEPS) (all_jobs (sched sys6))"
    using a(8) s6(7) by simp
  obtain sys7 where 7: "exec (Finish 0) sys6 = Some sys7"
    and s7: "workers sys7 = [AtWait]" "shell sys7 = MainIdle" "running (sched sys7)"
      "job_queue (sched sys7) = []" "active_jobs (sched sys7) = []"
      "core_availability (sched sys7) = [True]"
      "all_jobs (sched sys7) = all_jobs ?s @ [?j6]"
      "completed_jobs (sched sys7) = completed_jobs ?s @ [?L]"
      "max_concurrent_jobs (sched sys7) = max_concurrent_jobs ?s"
    using s6 nw
    by (simp add: worker_at_def move_def worker_done_def Let_def
        update_job_dependencies_none_waiting locked_def)
  have "run one_job sys = Some sys7"
    using 1 2 3 4 5 6 7 by (simp add: one_job_def)
  moreover have "at_rest sys7"
    using s7 a(7,8) by (simp add: at_rest_def)
  ultimately show ?thesis using s7(8) by auto
qed

lemma many_jobs_completed:
  "at_rest sys \<Longrightarrow>
   \<exists>sys'. run (many_jobs k) sys = Some sys' \<and> at_rest sys' \<and>
      length (completed_jobs (sched sys')) = k + length (completed_jobs (sched sys))"
proof (induction k arbitrary: sys)
  case 0
  then show ?case by (simp add: many_jobs_def)
next
  case (Suc k)
  from one_job_at_rest[OF Suc.prems] obtain sys1 where
    1: "run one_job sys = Some sys1" "at_rest sys1"
       "length (completed_jobs (sched sys1)) = Suc (length (completed_jobs (sched sys)))"
    by blast
  from Suc.IH[OF 1(2)] obtain sys2 where
    2: "run (many_jobs k) sys1 = Some sys2" "at_rest sys2"
       "length (completed_jobs (sched sys2)) = k + length (completed_jobs (sched sys1))"
    by blast
  have "run (many_jobs (Suc k)) sys = Some sys2"
    using 1(1) 2(1) by (simp add: many_jobs_def run_append)
  with 2(2,3) 1(3) show ?case by auto
qed

lemma boot_at_rest: "at_rest (boot 1 0)"
  by (simp add: at_rest_def boot_def new_scheduler_def)

text \<open>
  C8 at a failing input: 1001 jobs are submitted and run to completion one after the
  other. No function calls \<^verbatim>\<open>cleanup_completed_jobs\<close>, so the completed list holds 1001
  entries, more than the 1000 the function would keep.
\<close>

theorem completed_jobs_exceed_cap:
  "\<exists>sys. run (many_jobs 1001) (boot 1 0) = Some sys \<and>
         length (get_completed_jobs (sched sys)) = 1001 \<and>
         max_completed < length (get_completed_jobs (sched sys)) \<and>
         length (completed_jobs (cleanup_completed_jobs (sched sys))) = 1000"
proof -
  from many_jobs_completed[OF boot_at_rest, of 1001] obtain sys where
    s: "run (many_jobs 1001) (boot 1 0) = Some sys"
       "length (completed_jobs (sched sys)) = 1001 + length (completed_jobs (sched (boot 1 0)))"
    by blast
  have "completed_jobs (sched (boot 1 0)) = []" by (simp add: boot_def new_scheduler_def)
  with s show ?thesis
    by (intro exI[where x=sys])
       (simp add: get_completed_jobs_def max_completed_def cleanup_completed_jobs_def)
qed

section \<open>Runs of the system at concrete inputs\<close>

text \<open>
  C1 at a failing input: two jobs of the same priority are in the ready queue and the
  worker takes the first, "make", although the second, "ls", has the larger score of
  \<^verbatim>\<open>calculate_priority_score\<close>; the queue's comparator reads the priority only.
\<close>

theorem queue_ignores_score:
  "(case run [Submit ''make'' MEDIUM 0, Submit ''ls'' MEDIUM 0, Take 0] (boot 1 0) of
      None \<Rightarrow> False
    | Some sys \<Rightarrow>
        workers sys = [Holding 0] \<and> job_queue (sched sys) = [1] \<and>
        calculate_priority_score 0 (job_at sys 0) = Inr (1 + 6 / 85 + 1 / 5) \<and>
        calculate_priority_score 0 (job_at sys 1) = Inr (1 + 6 / 65 + 1 / 5) \<and>
        JobCompare 0 (job_at sys 0) (job_at sys 1) = Inr True)"
  by code_simp

text \<open>
  C2 at a failing input: the job is killed while its worker is blocked in \<^verbatim>\<open>waitpid\<close>;
  when the child then exits with code 0, \<^verbatim>\<open>execute_job\<close> writes \<open>COMPLETED\<close> over
  \<open>KILLED\<close>, and the status stays so.
\<close>

theorem kill_then_reap:
  "status_of (run (start_one @ [Kill 1]) (boot 1 0)) 0 = Some KILLED \<and>
   status_of (run (start_one @ [Kill 1, Reaped 0 (Exited 0) 3000000000]) (boot 1 0)) 0
     = Some COMPLETED \<and>
   status_of (run (start_one @ [Kill 1, Reaped 0 (Exited 0) 3000000000, Finish 0]) (boot 1 0)) 0
     = Some COMPLETED"
  by code_simp

text \<open>
  C6 at a failing input: the job has been suspended, so its status is \<open>SUSPENDED\<close>, not
  \<open>RUNNING\<close>; \<^verbatim>\<open>kill_job\<close> finds it in the active list, returns true, sets the status
  to \<open>KILLED\<close> and counts a killed job.
\<close>

theorem kill_suspended:
  "(case run (start_one @ [Suspend 1]) (boot 1 0) of
      None \<Rightarrow> False
    | Some sys \<Rightarrow>
        status (job_at sys 0) = SUSPENDED \<and>
        fst (kill_job 1 (sched sys)) \<and>
        status (all_jobs (snd (kill_job 1 (sched sys))) ! 0) = KILLED \<and>
        total_jobs_killed (stats (snd (kill_job 1 (sched sys)))) = 1)"
  by code_simp

text \<open>
  C7 at a failing input: one job has completed, with a turnaround of 3000 ms and a wait
  of 1000 ms; \<^verbatim>\<open>get_system_stats\<close> returns the stored record, whose two averages are
  still 0. \<^verbatim>\<open>update_system_stats\<close> would store 3000 and 1000.
\<close>

theorem stats_not_recomputed:
  "(case run (start_one @ [Reaped 0 (Exited 0) 3000000000, Finish 0]) (boot 1 0) of
      None \<Rightarrow> False
    | Some sys \<Rightarrow>
        map turnaround_ms (get_completed_jobs (sched sys)) = [3000] \<and>
        map wait_ms (get_completed_jobs (sched sys)) = [1000] \<and>
        average_turnaround_time (get_system_stats (sched sys)) = 0 \<and>
        average_wait_time (get_system_stats (sched sys)) = 0 \<and>
        average_turnaround_time (stats (update_system_stats 3000000000 (sched sys))) = 3000 \<and>
        average_wait_time (stats (update_system_stats 3000000000 (sched sys))) = 1000)"
  by code_simp

text \<open>
  C9 at a failing input: README.md's example script has an empty line between the
  headers and the command. The loop takes the empty line as the command and stops, and
  the call ends with "No command found".
\<close>

theorem readme_script_rejected:
  "submit_job_script ''example_job.sh'' (Some readme_example) 0 (sched (boot 1 0)) =
     Inl (runtime_error ''No command found in job script: example_job.sh'')"
  by code_simp

text \<open>
  C10 at a failing input: a script declares a limit of 5 MB. \<^verbatim>\<open>parse_job_script\<close>
  submits the job with the default limit and writes the declared one afterwards; a worker
  that starts the job in between stores a usage of 10 MB, clamped to the default 1024.
\<close>

theorem limit_written_after_start:
  "(case run [SubmitScript ''job.txt'' (Some small_limit_script) 0, Take 0, Mark 0 1,
              AssignCore 0 2, Fork 0 3 4 4242, ScriptFields] (boot 1 0) of
      None \<Rightarrow> False
    | Some sys \<Rightarrow>
        status (job_at sys 0) = RUNNING \<and>
        memory_usage_mb (job_at sys 0) = 10 \<and>
        max_memory_mb (limits (job_at sys 0)) = 5)"
  by code_simp

end
